theory Spec2Isabelle
  imports Complex_Main "HOL-Library.Log_Nat" "HOL-Library.Code_Target_Nat"
begin

section \<open>Strings and numbers of the script\<close>

text \<open>
  The development embeds \<^verbatim>\<open>static/script.js\<close>, the page controller of TextTube.

  A JavaScript string is the list of its code units. The model takes the code units
  below 256, which is the type \<open>char\<close>; every pattern the script searches for
  (\<^verbatim>\<open>%\<close>, the stage keywords, the digits of \<^verbatim>\<open>\d\<close>, the host markers) lies in that range.

  A JavaScript number is a double. The model holds a finite double as the rational it is,
  next to the two special values the script can produce, \<^verbatim>\<open>Infinity\<close> and \<^verbatim>\<open>NaN\<close>. The
  operands of the script's arithmetic are never negative (the value of a digit run, and
  the literals 40 and 50), so neither a negative zero nor a negative infinity arises and
  the model has none.
\<close>

datatype jsnum = Num rat | Infinity | NaN

text \<open>
  Rounding to the nearest double, ties to the even significand, as IEEE 754 has it. A
  number \<open>q\<close> that lies between \<open>2 powi e\<close> and \<open>2 powi (e + 1)\<close> is rounded to a multiple
  of \<open>2 powi (e - 52)\<close>, where \<open>e\<close> is not taken below \<open>-1022\<close> (the subnormal numbers), and
  a result of \<open>2 ^ 1024\<close> or more is \<^verbatim>\<open>Infinity\<close>. \<open>floor_log2\<close> finds \<open>e\<close> from the lengths in
  bits of numerator and denominator.
\<close>

definition round_even :: "rat \<Rightarrow> int" where
  "round_even x =
     (let f = \<lfloor>x\<rfloor>; r = x - of_int f
      in if r < 1 / 2 then f else if 1 / 2 < r then f + 1 else if even f then f else f + 1)"

definition floor_log2 :: "rat \<Rightarrow> int" where
  "floor_log2 q =
     (let (n, d) = quotient_of q; k = bitlen n - bitlen d
      in if 2 powi k \<le> q then k else k - 1)"

definition expo :: "rat \<Rightarrow> int" where
  "expo q = max (floor_log2 q) (- 1022)"

definition round_rat :: "rat \<Rightarrow> rat" where
  "round_rat q =
     (if q \<le> 0 then 0
      else let ulp = 2 powi (expo q - 52)
           in of_int (round_even (q / ulp)) * ulp)"

definition round_double :: "rat \<Rightarrow> jsnum" where
  "round_double q = (let v = round_rat q in if 2 ^ 1024 \<le> v then Infinity else Num v)"

text \<open>
  Division, multiplication and addition of doubles on operands that are not negative: the
  exact result, rounded.
\<close>

fun js_div :: "jsnum \<Rightarrow> jsnum \<Rightarrow> jsnum" where
  "js_div (Num x) (Num y) =
     (if y = 0 then (if x = 0 then NaN else Infinity) else round_double (x / y))"
| "js_div (Num x) Infinity = Num 0"
| "js_div Infinity (Num y) = Infinity"
| "js_div Infinity Infinity = NaN"
| "js_div NaN b = NaN"
| "js_div a NaN = NaN"

fun js_mul :: "jsnum \<Rightarrow> jsnum \<Rightarrow> jsnum" where
  "js_mul (Num x) (Num y) = round_double (x * y)"
| "js_mul (Num x) Infinity = (if x = 0 then NaN else Infinity)"
| "js_mul Infinity (Num y) = (if y = 0 then NaN else Infinity)"
| "js_mul Infinity Infinity = Infinity"
| "js_mul NaN b = NaN"
| "js_mul a NaN = NaN"

fun js_add :: "jsnum \<Rightarrow> jsnum \<Rightarrow> jsnum" where
  "js_add (Num x) (Num y) = round_double (x + y)"
| "js_add NaN b = NaN"
| "js_add a NaN = NaN"
| "js_add Infinity b = Infinity"
| "js_add a Infinity = Infinity"

text \<open>Truthiness, as \<^verbatim>\<open>||\<close> and \<^verbatim>\<open>if\<close> read a number or a string.\<close>

fun truthy_num :: "jsnum \<Rightarrow> bool" where
  "truthy_num (Num x) = (x \<noteq> 0)"
| "truthy_num Infinity = True"
| "truthy_num NaN = False"

text \<open>The character class \<^verbatim>\<open>\d\<close> of a pattern without the unicode flag: \<^verbatim>\<open>[0-9]\<close>.\<close>

definition is_digit :: "char \<Rightarrow> bool" where
  "is_digit c = (c \<in> set ''0123456789'')"

definition digit_val :: "char \<Rightarrow> nat" where
  "digit_val c = of_char c - 48"

definition dec_value :: "string \<Rightarrow> nat" where
  "dec_value ds = foldl (\<lambda>acc c. 10 * acc + digit_val c) 0 ds"

text \<open>
  \<^verbatim>\<open>parseInt\<close> with no radix, on the strings the script gives it: the captures of
  \<^verbatim>\<open>(\d+)\<close>, which start with a digit and hold digits only. It reads the longest prefix of
  decimal digits and returns its value as a double, that is rounded. (On other strings
  \<^verbatim>\<open>parseInt\<close> also skips white space and reads a sign or a \<^verbatim>\<open>0x\<close> prefix; a digit run has
  none of them. For a run of more than 20 significant digits the language lets an engine
  put 0 for the later digits before it rounds; the model rounds the value of the run.)
\<close>

definition parseInt :: "string \<Rightarrow> jsnum" where
  "parseInt s =
     (let ds = takeWhile is_digit s
      in if ds = [] then NaN else round_double (of_int (int (dec_value ds))))"

text \<open>\<^verbatim>\<open>s.startsWith(p)\<close> and \<^verbatim>\<open>s.includes(p)\<close>: \<open>p\<close> occurs in \<open>s\<close> at some position.\<close>

fun starts_with :: "string \<Rightarrow> string \<Rightarrow> bool" where
  "starts_with s [] = True"
| "starts_with [] (p # ps) = False"
| "starts_with (c # cs) (p # ps) = (c = p \<and> starts_with cs ps)"

fun js_includes :: "string \<Rightarrow> string \<Rightarrow> bool" where
  "js_includes [] p = (p = [])"
| "js_includes (c # cs) p = (starts_with (c # cs) p \<or> js_includes cs p)"

section \<open>The two patterns of parseProgress\<close>

text \<open>
  \<^verbatim>\<open>progressText.match(/(\d+)%/)\<close> gives the leftmost match, and of it the capture. At a
  start position, the greedy \<^verbatim>\<open>\d+\<close> takes the whole run of digits that starts there; a
  shorter capture, which backtracking would try next, is followed by a digit and never by
  \<^verbatim>\<open>%\<close>. So the pattern matches at a position exactly when a non-empty run of digits starts
  there and \<^verbatim>\<open>%\<close> follows the whole run.
\<close>

definition match_percent_at :: "string \<Rightarrow> string option" where
  "match_percent_at s =
     (let ds = takeWhile is_digit s; rest = dropWhile is_digit s
      in if ds \<noteq> [] \<and> starts_with rest ''%'' then Some ds else None)"

fun match_percent :: "string \<Rightarrow> string option" where
  "match_percent [] = None"
| "match_percent (c # cs) =
     (case match_percent_at (c # cs) of
        Some ds \<Rightarrow> Some ds
      | None \<Rightarrow> match_percent cs)"

text \<open>
  \<^verbatim>\<open>progressText.match(/part (\d+) of (\d+)/)\<close>, likewise: at a start position the text
  \<^verbatim>\<open>part \<close>, a whole run of digits, the text \<^verbatim>\<open> of \<close> and a second run of digits, which
  the greedy \<^verbatim>\<open>\d+\<close> takes whole. The result holds the two captures.
\<close>

definition match_part_at :: "string \<Rightarrow> (string \<times> string) option" where
  "match_part_at s =
     (if starts_with s ''part '' then
        (let s1 = drop 5 s; cur = takeWhile is_digit s1; s2 = dropWhile is_digit s1
         in if cur \<noteq> [] \<and> starts_with s2 '' of '' then
              (let s3 = drop 4 s2; tot = takeWhile is_digit s3
               in if tot \<noteq> [] then Some (cur, tot) else None)
            else None)
      else None)"

fun match_part :: "string \<Rightarrow> (string \<times> string) option" where
  "match_part [] = None"
| "match_part (c # cs) =
     (case match_part_at (c # cs) of
        Some m \<Rightarrow> Some m
      | None \<Rightarrow> match_part cs)"

section \<open>parseProgress\<close>

text \<open>
  The rules after the stage \<^verbatim>\<open>Transcribing\<close>: reached when that keyword is absent, and
  when it is present and the pattern \<^verbatim>\<open>part X of Y\<close> is not found.
\<close>

definition completed_or_zero :: "string \<Rightarrow> jsnum" where
  "completed_or_zero progressText =
     (if js_includes progressText ''completed'' then Num 100 else Num 0)"

definition parseProgress :: "string \<Rightarrow> jsnum" where
  "parseProgress progressText =
     (if js_includes progressText ''%'' then
        (case match_percent progressText of
           Some m1 \<Rightarrow> parseInt m1
         | None \<Rightarrow> Num 0)
      else if js_includes progressText ''Starting'' then Num 5
      else if js_includes progressText ''download'' then Num 20
      else if js_includes progressText ''Processing'' then Num 40
      else if js_includes progressText ''Transcribing'' then
        (case match_part progressText of
           Some (current, total') \<Rightarrow>
             js_add (Num 40) (js_mul (js_div (parseInt current) (parseInt total')) (Num 50))
         | None \<Rightarrow> completed_or_zero progressText)
      else completed_or_zero progressText)"

text \<open>
  Three notions the properties of \<open>parseProgress\<close> are stated with. The first is read off
  the text alone: somewhere in it a digit stands immediately before a \<^verbatim>\<open>%\<close>. The second
  says that the rule of \<^verbatim>\<open>part X of Y\<close> is the one that decides. The third is the range of
  a percentage.
\<close>

fun has_digit_percent :: "string \<Rightarrow> bool" where
  "has_digit_percent (a # b # cs) = ((is_digit a \<and> b = CHR ''%'') \<or> has_digit_percent (b # cs))"
| "has_digit_percent [a] = False"
| "has_digit_percent [] = False"

definition part_rule_fires :: "string \<Rightarrow> bool" where
  "part_rule_fires s =
     (\<not> js_includes s ''%'' \<and> \<not> js_includes s ''Starting'' \<and> \<not> js_includes s ''download'' \<and>
      \<not> js_includes s ''Processing'' \<and> js_includes s ''Transcribing'' \<and> match_part s \<noteq> None)"

fun is_percentage :: "jsnum \<Rightarrow> bool" where
  "is_percentage (Num q) = (q \<in> \<int> \<and> 0 \<le> q \<and> q \<le> 100)"
| "is_percentage Infinity = False"
| "is_percentage NaN = False"

fun at_most :: "jsnum \<Rightarrow> rat \<Rightarrow> bool" where
  "at_most (Num q) b = (q \<le> b)"
| "at_most Infinity b = False"
| "at_most NaN b = False"

section \<open>The page: state, controls, timers and requests\<close>

text \<open>
  The script keeps two variables, \<^verbatim>\<open>isTranscribing\<close> and \<^verbatim>\<open>progressInterval\<close>, and writes
  properties of five elements of the page. The model holds them in one record, each
  element property as the value last written to it, next to what the browser keeps for
  the script: the interval timers that are active, the number of timers created so far,
  and the requests \<^verbatim>\<open>fetch\<close> has been called for, oldest first.

  \<^verbatim>\<open>setInterval\<close> returns a positive integer that names the new timer, so a handle is
  truthy wherever \<^verbatim>\<open>if (progressInterval)\<close> tests it; the model names the timers
  \<open>0, 1, 2, \<dots>\<close> in the order of their creation and \<open>None\<close> is \<^verbatim>\<open>null\<close>.
  \<^verbatim>\<open>clearInterval\<close> removes a handle from the active timers, and changes nothing when the
  handle is not among them. Writing a property of an element is taken to succeed, whatever
  the value. Calls of \<^verbatim>\<open>console\<close> are left out.
\<close>

datatype request = PostTranscribe string string | GetProgress | PostCleanup

record page =
  isTranscribing :: bool
  progressInterval :: "nat option"
  transcribeButton_disabled :: bool
  urlInput_disabled :: bool
  progressBar_value :: jsnum
  progressText_textContent :: string
  progressText_color :: string
  transcriptionOutput_value :: string
  timers :: "nat set"
  timers_created :: nat
  requests :: "request list"

definition clearInterval :: "nat \<Rightarrow> page \<Rightarrow> page" where
  "clearInterval h st = st\<lparr>timers := timers st - {h}\<rparr>"

text \<open>
  \<^verbatim>\<open>setInterval(checkProgress, 1000)\<close>: a new timer, active from now on, and its handle.
  Each time the timer fires, \<^verbatim>\<open>checkProgress\<close> is called once.
\<close>

definition setInterval :: "page \<Rightarrow> nat \<times> page" where
  "setInterval st =
     (timers_created st,
      st\<lparr>timers := insert (timers_created st) (timers st),
         timers_created := Suc (timers_created st)\<rparr>)"

text \<open>\<^verbatim>\<open>fetch\<close>, as far as the call goes: the request is sent.\<close>

definition fetch :: "request \<Rightarrow> page \<Rightarrow> page" where
  "fetch r st = st\<lparr>requests := requests st @ [r]\<rparr>"

text \<open>A string that may be \<^verbatim>\<open>undefined\<close>: its truthiness, and \<^verbatim>\<open>a || b\<close>.\<close>

fun truthy_str :: "string option \<Rightarrow> bool" where
  "truthy_str None = False"
| "truthy_str (Some s) = (s \<noteq> [])"

fun or_else :: "string option \<Rightarrow> string \<Rightarrow> string" where
  "or_else None d = d"
| "or_else (Some s) d = (if s = [] then d else s)"

text \<open>
  \<^verbatim>\<open>updateUI(state)\<close>; the four arguments are the properties of the object it is given
  (\<^verbatim>\<open>transcription\<close> is \<open>None\<close> where the caller leaves it out or passes \<^verbatim>\<open>undefined\<close>).
\<close>

definition updateUI :: "bool \<Rightarrow> jsnum \<Rightarrow> string \<Rightarrow> string option \<Rightarrow> page \<Rightarrow> page" where
  "updateUI is_transcribing progress_value message transcription_text st =
     (let st1 = st\<lparr>transcribeButton_disabled := is_transcribing,
                    urlInput_disabled := is_transcribing,
                    progressBar_value := (if truthy_num progress_value then progress_value else Num 0),
                    progressText_textContent := or_else (Some message) []\<rparr>
      in case transcription_text of
           Some t \<Rightarrow> (if t \<noteq> [] then st1\<lparr>transcriptionOutput_value := t\<rparr> else st1)
         | None \<Rightarrow> st1)"

definition resetState :: "page \<Rightarrow> page" where
  "resetState st =
     (let st1 = st\<lparr>isTranscribing := False\<rparr>;
          st2 = (case progressInterval st1 of
                   Some h \<Rightarrow> (clearInterval h st1)\<lparr>progressInterval := None\<rparr>
                 | None \<Rightarrow> st1)
      in st2\<lparr>transcribeButton_disabled := False, urlInput_disabled := False\<rparr>)"

definition showError :: "string \<Rightarrow> page \<Rightarrow> page" where
  "showError message st =
     resetState (st\<lparr>progressText_textContent := ''Error: '' @ message,
                    progressText_color := ''red''\<rparr>)"

definition startProgressChecking :: "page \<Rightarrow> page" where
  "startProgressChecking st =
     (let st1 = (case progressInterval st of
                   Some h \<Rightarrow> clearInterval h st
                 | None \<Rightarrow> st);
          (h', st2) = setInterval st1
      in st2\<lparr>progressInterval := Some h'\<rparr>)"

section \<open>Submitting a job\<close>

text \<open>
  How an awaited request ends: the promise of \<^verbatim>\<open>fetch\<close> or of \<^verbatim>\<open>response.json()\<close> is
  rejected with an error of the given message, or there is a response, with its
  \<^verbatim>\<open>ok\<close> flag and the parsed body.
\<close>

datatype 'a settled = Rejected string | Fulfilled bool 'a

text \<open>
  An \<^verbatim>\<open>async\<close> function runs up to an \<^verbatim>\<open>await\<close> and goes on when the awaited promise
  settles; other handlers of the page may run in between. Each such function is therefore
  modelled piece by piece, the later pieces taking the state they find when they resume.

  \<^verbatim>\<open>handleTranscription\<close> first marks the page busy and sends the job.
\<close>

definition handleTranscription :: "string \<Rightarrow> string \<Rightarrow> page \<Rightarrow> page" where
  "handleTranscription url model st =
     fetch (PostTranscribe url model)
       (updateUI True (Num 0) ''Starting transcription...'' None (st\<lparr>isTranscribing := True\<rparr>))"

text \<open>
  Then, with the answer (of whose body only \<^verbatim>\<open>error\<close> is read): polling starts, or the
  error thrown in the \<^verbatim>\<open>try\<close> block reaches \<^verbatim>\<open>showError\<close>.
\<close>

definition handleTranscription_settled :: "string option settled \<Rightarrow> page \<Rightarrow> page" where
  "handleTranscription_settled r st =
     (case r of
        Rejected m \<Rightarrow> showError (or_else (Some m) ''Failed to start transcription'') st
      | Fulfilled ok data_error \<Rightarrow>
          if \<not> ok then
            (let m = or_else data_error ''Failed to start transcription''
             in showError (or_else (Some m) ''Failed to start transcription'') st)
          else startProgressChecking st)"

text \<open>
  \<^verbatim>\<open>String.prototype.trim\<close> removes white space and line terminators at both ends; below
  256 these are the code units 9 to 13, 32 and 160.
\<close>

definition is_white_space :: "char \<Rightarrow> bool" where
  "is_white_space c = (of_char c \<in> {9, 10, 11, 12, 13, 32, 160 :: nat})"

definition trim :: "string \<Rightarrow> string" where
  "trim s = rev (dropWhile is_white_space (rev (dropWhile is_white_space s)))"

text \<open>
  The click handler of the button. \<open>input_value\<close> is what the URL field holds and
  \<open>checked_model\<close> the value of the checked radio button, if one is checked.
\<close>

definition on_click :: "string \<Rightarrow> string option \<Rightarrow> page \<Rightarrow> page" where
  "on_click input_value checked_model st =
     (let url = trim input_value;
          model = or_else checked_model ''base''
      in if url = [] then showError ''Please enter a YouTube URL'' st
         else if \<not> js_includes url ''youtube.com/'' \<and> \<not> js_includes url ''youtu.be/''
           then showError ''Please enter a valid YouTube URL'' st
         else handleTranscription url model st)"

text \<open>
  The key handler of the URL field; \<^verbatim>\<open>click()\<close> on a disabled button runs no handler.
\<close>

definition on_keypress :: "string \<Rightarrow> string \<Rightarrow> string option \<Rightarrow> page \<Rightarrow> page" where
  "on_keypress key input_value checked_model st =
     (if key = ''Enter'' \<and> \<not> isTranscribing st then
        (if transcribeButton_disabled st then st else on_click input_value checked_model st)
      else st)"

definition on_beforeunload :: "page \<Rightarrow> page" where
  "on_beforeunload st = (if isTranscribing st then fetch PostCleanup st else st)"

section \<open>Polling\<close>

text \<open>The body of the answer of \<^verbatim>\<open>/progress\<close>; an absent property is \<open>None\<close>.\<close>

record progress_data =
  progress :: "string option"
  transcription :: "string option"
  finished :: "bool option"
  error :: "string option"

text \<open>One tick: \<^verbatim>\<open>checkProgress\<close> up to its first \<^verbatim>\<open>await\<close>.\<close>

definition checkProgress :: "page \<Rightarrow> page" where
  "checkProgress st = fetch GetProgress st"

text \<open>The last statement of the \<^verbatim>\<open>try\<close> block and its way through \<^verbatim>\<open>catch\<close>.\<close>

definition handle_errors :: "progress_data \<Rightarrow> page \<Rightarrow> page" where
  "handle_errors data st =
     (if truthy_str (error data)
        then showError (or_else (error data) ''Error checking progress'') st
        else st)"

definition completion_signal :: "progress_data \<Rightarrow> bool" where
  "completion_signal data =
     (finished data = Some True \<or>
      (truthy_str (progress data) \<and> js_includes (or_else (progress data) []) ''completed''))"

text \<open>
  The tick goes on when the answer is there. On a completion signal it sends the cleanup
  request and waits again: the result then holds the body, which the last piece needs.
\<close>

definition checkProgress_settled ::
    "progress_data settled \<Rightarrow> page \<Rightarrow> page \<times> progress_data option" where
  "checkProgress_settled r st =
     (case r of
        Rejected m \<Rightarrow> (showError (or_else (Some m) ''Error checking progress'') st, None)
      | Fulfilled ok data \<Rightarrow>
          if \<not> ok then
            (let m = or_else (error data) ''Failed to check progress''
             in (showError (or_else (Some m) ''Error checking progress'') st, None))
          else
            (let st1 = (if truthy_str (progress data)
                          then updateUI True (parseProgress (or_else (progress data) []))
                                 (or_else (progress data) []) (transcription data) st
                          else st)
             in if completion_signal data then
                  (fetch PostCleanup
                     (resetState
                        (updateUI False (Num 100) ''Transcription completed!''
                           (transcription data) st1)),
                   Some data)
                else (handle_errors data st1, None)))"

text \<open>The last piece, when the cleanup request has settled (its response is not read).\<close>

definition checkProgress_cleaned :: "unit settled \<Rightarrow> progress_data \<Rightarrow> page \<Rightarrow> page" where
  "checkProgress_cleaned c data st =
     (case c of
        Rejected m \<Rightarrow> showError (or_else (Some m) ''Error checking progress'') st
      | Fulfilled ok u \<Rightarrow> handle_errors data st)"

section \<open>Runs of the page\<close>

text \<open>
  What can happen to the page: the two handlers of the user, a tick of a timer, the
  settling of a request, and unloading. A run is any sequence of them; this allows more
  than a browser does (there a request settles only after it was sent, and a disabled
  button takes no click), so what holds of every run holds of every run in a browser.
\<close>

datatype event =
    Click string "string option"
  | Keypress string string "string option"
  | TranscribeSettled "string option settled"
  | Tick
  | ProgressSettled "progress_data settled"
  | CleanupSettled "unit settled" progress_data
  | BeforeUnload

fun step :: "event \<Rightarrow> page \<Rightarrow> page" where
  "step (Click v m) st = on_click v m st"
| "step (Keypress k v m) st = on_keypress k v m st"
| "step (TranscribeSettled r) st = handleTranscription_settled r st"
| "step Tick st = (if timers st = {} then st else checkProgress st)"
| "step (ProgressSettled r) st = fst (checkProgress_settled r st)"
| "step (CleanupSettled c d) st = checkProgress_cleaned c d st"
| "step BeforeUnload st = on_beforeunload st"

text \<open>The page as the script finds it when it is loaded.\<close>

definition loaded :: "page \<Rightarrow> bool" where
  "loaded st = (\<not> isTranscribing st \<and> progressInterval st = None \<and> timers st = {} \<and> requests st = [])"

inductive reachable :: "page \<Rightarrow> bool" where
  start: "loaded st \<Longrightarrow> reachable st"
| after: "reachable st \<Longrightarrow> reachable (step ev st)"

definition page0 :: page where
  "page0 = \<lparr>isTranscribing = False, progressInterval = None,
            transcribeButton_disabled = False, urlInput_disabled = False,
            progressBar_value = Num 0, progressText_textContent = [],
            progressText_color = [], transcriptionOutput_value = [],
            timers = {}, timers_created = 0, requests = []\<rparr>"

section \<open>Notions for the properties of the page\<close>

text \<open>
  What \<^verbatim>\<open>showError(message)\<close> leaves behind: the message on display in red, and the state
  reset, that is the page not busy, no timer handle held and both controls enabled.
\<close>

definition error_shown :: "string \<Rightarrow> page \<Rightarrow> bool" where
  "error_shown message st =
     (progressText_textContent st = ''Error: '' @ message \<and> progressText_color st = ''red'' \<and>
      \<not> isTranscribing st \<and> progressInterval st = None \<and>
      \<not> transcribeButton_disabled st \<and> \<not> urlInput_disabled st)"

text \<open>
  The invariant of the timers: the active timers are the one whose handle the script
  holds, if it holds one, and every active timer was created before.
\<close>

definition timers_inv :: "page \<Rightarrow> bool" where
  "timers_inv st =
     (timers st = set_option (progressInterval st) \<and> (\<forall>h\<in>timers st. h < timers_created st))"

text \<open>A page that is polling: loaded, a video URL submitted, the job accepted.\<close>

definition polling_page :: page where
  "polling_page =
     step (TranscribeSettled (Fulfilled True None)) (step (Click ''https://youtu.be/abc'' None) page0)"

section \<open>Facts about rounding\<close>

text \<open>The exponent that \<open>floor_log2\<close> computes is the one of its argument.\<close>

lemma two_powi_less_iff: "(2::rat) powi m < 2 powi n \<longleftrightarrow> m < n"
proof
  assume "(2::rat) powi m < 2 powi n"
  show "m < n"
  proof (rule ccontr)
    assume "\<not> m < n"
    then have "(2::rat) powi n \<le> 2 powi m" by (intro power_int_increasing) simp_all
    with \<open>(2::rat) powi m < 2 powi n\<close> show False by simp
  qed
next
  assume "m < n"
  then show "(2::rat) powi m < 2 powi n" by (intro power_int_strict_increasing) simp_all
qed

lemma two_powi_le_iff: "(2::rat) powi m \<le> 2 powi n \<longleftrightarrow> m \<le> n"
  using two_powi_less_iff [of n m] by (simp add: not_less [symmetric])

lemma floor_log2_bounds:
  assumes "0 < q"
  shows "2 powi floor_log2 q \<le> q \<and> q < 2 powi (floor_log2 q + 1)"
proof -
  obtain n d where nd: "quotient_of q = (n, d)" by (cases "quotient_of q")
  then have d: "0 < d" and q: "q = of_int n / of_int d"
    by (simp_all add: quotient_of_denom_pos quotient_of_div)
  have n: "0 < n" using assms d q by (simp add: zero_less_divide_iff)
  let ?a = "bitlen n" and ?b = "bitlen d"
  from bitlen_bounds [OF n] have "2 ^ nat (?a - 1) \<le> n" "n < 2 ^ nat ?a" by simp_all
  then have "(of_int (2 ^ nat (?a - 1)) :: rat) \<le> of_int n" "(of_int n :: rat) < of_int (2 ^ nat ?a)"
    by (simp_all only: of_int_le_iff of_int_less_iff)
  moreover have "1 \<le> ?a" using n by (simp add: bitlen_alt_def)
  ultimately have n1: "(2::rat) powi (?a - 1) \<le> of_int n" and n2: "(of_int n :: rat) < 2 powi ?a"
    by (simp_all add: power_int_nonneg_exp)
  from bitlen_bounds [OF d] have "2 ^ nat (?b - 1) \<le> d" "d < 2 ^ nat ?b" by simp_all
  then have "(of_int (2 ^ nat (?b - 1)) :: rat) \<le> of_int d" "(of_int d :: rat) < of_int (2 ^ nat ?b)"
    by (simp_all only: of_int_le_iff of_int_less_iff)
  moreover have "1 \<le> ?b" using d by (simp add: bitlen_alt_def)
  ultimately have d1: "(2::rat) powi (?b - 1) \<le> of_int d" and d2: "(of_int d :: rat) < 2 powi ?b"
    by (simp_all add: power_int_nonneg_exp)
  have dpos: "(0::rat) < of_int d" using d by simp
  have p1: "(0::rat) < 2 powi (?b - 1)" and p2: "(0::rat) < 2 powi ?b" by simp_all
  have "q < 2 powi ?a / 2 powi (?b - 1)"
  proof -
    have "q < 2 powi ?a / of_int d" unfolding q using n2 dpos by (simp add: divide_strict_right_mono)
    also have "\<dots> \<le> 2 powi ?a / 2 powi (?b - 1)"
      using d1 p1 dpos by (intro divide_left_mono mult_pos_pos) simp_all
    finally show ?thesis .
  qed
  then have up: "q < 2 powi (?a - ?b + 1)"
    by (simp add: power_int_diff [symmetric] algebra_simps)
  have "2 powi (?a - 1) / 2 powi ?b \<le> q"
  proof -
    have "(2::rat) powi (?a - 1) / 2 powi ?b \<le> of_int n / 2 powi ?b"
      using n1 p2 by (simp add: divide_right_mono)
    also have "\<dots> \<le> q" unfolding q
      using d2 dpos p2 n by (intro divide_left_mono mult_pos_pos) simp_all
    finally show ?thesis .
  qed
  then have lo: "2 powi (?a - ?b - 1) \<le> q"
    by (simp add: power_int_diff [symmetric] algebra_simps)
  show ?thesis
  proof (cases "2 powi (?a - ?b) \<le> q")
    case True
    then have "floor_log2 q = ?a - ?b" by (simp add: floor_log2_def nd)
    with True up show ?thesis by simp
  next
    case False
    then have "floor_log2 q = ?a - ?b - 1" by (simp add: floor_log2_def nd)
    with False lo show ?thesis by simp
  qed
qed

lemma floor_log2_eqI:
  assumes "2 powi e \<le> q" "q < 2 powi (e + 1)"
  shows "floor_log2 q = e"
proof -
  have "(0::rat) < 2 powi e" by simp
  with assms(1) have q: "0 < q" by linarith
  from floor_log2_bounds [OF q]
  have a: "2 powi floor_log2 q \<le> q" and b: "q < 2 powi (floor_log2 q + 1)" by simp_all
  from a assms(2) have "(2::rat) powi floor_log2 q < 2 powi (e + 1)" by linarith
  then have "floor_log2 q < e + 1" by (simp only: two_powi_less_iff)
  moreover from b assms(1) have "(2::rat) powi e < 2 powi (floor_log2 q + 1)" by linarith
  then have "e < floor_log2 q + 1" by (simp only: two_powi_less_iff)
  ultimately show ?thesis by simp
qed

lemma round_even_of_int [simp]: "round_even (of_int k) = k"
  by (simp add: round_even_def)

lemma round_even_mono:
  assumes "x \<le> y"
  shows "round_even x \<le> round_even y"
proof (cases "\<lfloor>x\<rfloor> = \<lfloor>y\<rfloor>")
  case True
  then have "x - of_int \<lfloor>x\<rfloor> \<le> y - of_int \<lfloor>y\<rfloor>" using assms by simp
  then show ?thesis using True by (auto simp: round_even_def Let_def)
next
  case False
  with assms have "\<lfloor>x\<rfloor> < \<lfloor>y\<rfloor>" using floor_mono [OF assms] by linarith
  moreover have "round_even x \<le> \<lfloor>x\<rfloor> + 1" by (auto simp: round_even_def Let_def)
  moreover have "\<lfloor>y\<rfloor> \<le> round_even y" by (auto simp: round_even_def Let_def)
  ultimately show ?thesis by linarith
qed



lemma round_rat_pos:
  "0 < q \<Longrightarrow> round_rat q = of_int (round_even (q / 2 powi (expo q - 52))) * 2 powi (expo q - 52)"
  by (simp add: round_rat_def Let_def)




lemma split_ulp': "(2::rat) powi e = 2 powi 52 * 2 powi (e - 52)"
proof -
  have "e = 52 + (e - 52)" by simp
  then have "(2::rat) powi e = 2 powi (52 + (e - 52))" by (rule arg_cong)
  also have "\<dots> = 2 powi 52 * 2 powi (e - 52)" by (rule power_int_add) simp
  finally show ?thesis .
qed


lemma round_rat_lower:
  assumes "0 < q" "expo q = floor_log2 q"
  shows "2 powi expo q \<le> round_rat q"
proof -
  let ?u = "(2::rat) powi (expo q - 52)"
  have u: "0 < ?u" by simp
  have "2 powi expo q \<le> q" using floor_log2_bounds [OF assms(1)] assms(2) by simp
  then have "2 powi 52 * ?u \<le> q" by (simp only: split_ulp' [symmetric])
  then have "of_int (2 ^ 52) \<le> q / ?u" using u by (simp add: pos_le_divide_eq)
  then have "round_even (of_int (2 ^ 52)) \<le> round_even (q / ?u)" by (rule round_even_mono)
  then have "2 ^ 52 \<le> round_even (q / ?u)" by (simp only: round_even_of_int)
  then have "(of_int (2 ^ 52) :: rat) \<le> of_int (round_even (q / ?u))" by (simp only: of_int_le_iff)
  then have "of_int (2 ^ 52) * ?u \<le> of_int (round_even (q / ?u)) * ?u"
    using u by (simp only: mult_le_cancel_right_pos)
  then show ?thesis using split_ulp' [of "expo q"] by (simp add: round_rat_pos [OF assms(1)])
qed



lemma expo_eqI:
  assumes "2 powi e \<le> q" "q < 2 powi (e + 1)" "- 1022 \<le> e"
  shows "expo q = e"
  using floor_log2_eqI [OF assms(1,2)] assms(3) by (simp add: expo_def)

lemma round_even_eqI:
  assumes "of_int m - 1 / 2 < x" "x < of_int m + 1 / 2"
  shows "round_even x = m"
proof (cases "of_int m \<le> x")
  case True
  then have "\<lfloor>x\<rfloor> = m" using assms(2) by (intro floor_unique) simp_all
  then show ?thesis using assms(2) by (simp add: round_even_def Let_def)
next
  case False
  then have "\<lfloor>x\<rfloor> = m - 1" using assms(1) by (intro floor_unique) simp_all
  then show ?thesis using assms(1) by (simp add: round_even_def Let_def)
qed

lemma round_even_tie:
  assumes "x = of_int m + 1 / 2"
  shows "round_even x = (if even m then m else m + 1)"
proof -
  have "\<lfloor>x\<rfloor> = m" unfolding assms by (intro floor_unique) simp_all
  then show ?thesis by (simp add: round_even_def Let_def assms)
qed

lemma round_rat_exact:
  assumes "0 < m" "m \<le> 2 ^ 53" "j \<le> 1074"
  shows "round_rat (of_int m / 2 ^ j) = of_int m / 2 ^ j"
proof -
  let ?q = "(of_int m :: rat) / 2 ^ j"
  let ?e = "expo ?q"
  let ?u = "(2::rat) powi (?e - 52)"
  have q: "0 < ?q" using assms(1) by simp
  have pj: "(2::rat) ^ j = 2 powi (int j)" by simp
  have "(of_int m :: rat) \<le> of_int (2 ^ 53)" using assms(2) by (simp only: of_int_le_iff)
  then have m53: "(of_int m :: rat) \<le> 2 powi 53" by simp
  have "?q \<le> 2 powi 53 / 2 powi (int j)" unfolding pj using m53 by (simp add: divide_right_mono)
  also have "\<dots> = 2 powi (53 - int j)" by (rule power_int_diff [symmetric]) simp
  finally have qle: "?q \<le> 2 powi (53 - int j)" .
  have "2 powi floor_log2 ?q \<le> ?q" using floor_log2_bounds [OF q] by simp
  with qle have "(2::rat) powi floor_log2 ?q \<le> 2 powi (53 - int j)" by linarith
  then have fl: "floor_log2 ?q \<le> 53 - int j" by (simp only: two_powi_le_iff)
  then have ele: "?e \<le> 53 - int j" using assms(3) by (simp add: expo_def)
  have "\<exists>k. ?q / ?u = of_int k"
  proof (cases "?e = 53 - int j")
    case True
    then have "floor_log2 ?q = 53 - int j" using assms(3) by (simp add: expo_def max_def split: if_splits)
    then have "2 powi (53 - int j) \<le> ?q" using floor_log2_bounds [OF q] by simp
    with qle have eq: "?q = 2 powi (53 - int j)" by linarith
    have "?q / ?u = 2 powi (53 - int j) / 2 powi (53 - int j - 52)" using eq True by simp
    also have "\<dots> = 2 powi (53 - int j - (53 - int j - 52))" by (rule power_int_diff [symmetric]) simp
    also have "\<dots> = of_int (2 ^ 52)" by simp
    finally show ?thesis by blast
  next
    case False
    with ele have "0 \<le> 52 - int j - ?e" by simp
    then obtain d where d: "52 - int j - ?e = int d" using nonneg_int_cases by blast
    have a: "inverse ((2::rat) ^ j) = 2 powi (- int j)" by (simp add: power_int_minus)
    have b: "inverse ?u = 2 powi (- (?e - 52))" by (simp only: power_int_minus)
    have "?q / ?u = of_int m * (inverse (2 ^ j) * inverse ?u)" by (simp add: divide_inverse)
    then have "?q / ?u = of_int m * (2 powi (- int j) * 2 powi (- (?e - 52)))"
      by (simp only: a b)
    also have "2 powi (- int j) * 2 powi (- (?e - 52)) = (2::rat) powi (- int j + - (?e - 52))"
      by (rule power_int_add [symmetric]) simp
    also have "- int j + - (?e - 52) = int d" using d by simp
    finally have "?q / ?u = of_int (m * 2 ^ d)" by simp
    then show ?thesis by blast
  qed
  then obtain k where k: "?q / ?u = of_int k" by blast
  have "round_rat ?q = of_int (round_even (?q / ?u)) * ?u" by (rule round_rat_pos [OF q])
  also have "\<dots> = ?q / ?u * ?u" by (simp only: k round_even_of_int)
  also have "\<dots> = ?q" by simp
  finally show ?thesis .
qed

lemma round_double_exact:
  assumes "0 < m" "m \<le> 2 ^ 53" "j \<le> 1074"
  shows "round_double (of_int m / 2 ^ j) = Num (of_int m / 2 ^ j)"
proof -
  have "(of_int m :: rat) \<le> of_int (2 ^ 53)" using assms(2) by (simp only: of_int_le_iff)
  moreover have "(of_int m :: rat) / 2 ^ j \<le> of_int m"
  proof -
    have "(of_int m :: rat) * 1 \<le> of_int m * 2 ^ j"
      using assms(1) by (intro mult_left_mono) simp_all
    then show ?thesis by (simp add: divide_le_eq)
  qed
  ultimately have "(of_int m :: rat) / 2 ^ j \<le> of_int (2 ^ 53)" by linarith
  then have "\<not> 2 ^ 1024 \<le> (of_int m :: rat) / 2 ^ j" by simp
  then show ?thesis by (simp only: round_double_def round_rat_exact [OF assms] Let_def if_False)
qed

lemma round_double_nat:
  assumes "n \<le> 2 ^ 53"
  shows "round_double (of_nat n) = Num (of_nat n)"
proof (cases "n = 0")
  case True
  then show ?thesis by (simp add: round_double_def round_rat_def)
next
  case False
  then have "0 < int n" by simp
  moreover have "int n \<le> 2 ^ 53" using assms by (metis of_nat_le_iff of_nat_numeral of_nat_power)
  ultimately show ?thesis using round_double_exact [of "int n" 0] by simp
qed

lemma round_double_at:
  assumes "2 powi e \<le> q" "q < 2 powi (e + 1)" "- 1022 \<le> e"
    and "round_even (q / 2 powi (e - 52)) = m"
    and "of_int m * 2 powi (e - 52) < (2::rat) ^ 1024"
  shows "round_double q = Num (of_int m * 2 powi (e - 52))"
proof -
  have "(0::rat) < 2 powi e" by simp
  with assms(1) have q: "0 < q" by linarith
  have "expo q = e" by (rule expo_eqI [OF assms(1-3)])
  then have "round_rat q = of_int m * 2 powi (e - 52)"
    using assms(4) by (simp add: round_rat_pos [OF q])
  then show ?thesis using assms(5) by (simp add: round_double_def Let_def)
qed

lemma round_double_overflow:
  assumes "2 ^ 1024 \<le> q"
  shows "round_double q = Infinity"
proof -
  have p: "(2::rat) ^ 1024 = 2 powi 1024" by simp
  have "(0::rat) < 2 powi 1024" by simp
  with assms have q: "0 < q" unfolding p by linarith
  have "q < 2 powi (floor_log2 q + 1)" using floor_log2_bounds [OF q] by simp
  with assms have "(2::rat) powi 1024 < 2 powi (floor_log2 q + 1)" unfolding p by linarith
  then have "1024 < floor_log2 q + 1" by (simp only: two_powi_less_iff)
  then have f: "1024 \<le> floor_log2 q" by simp
  then have e: "expo q = floor_log2 q" by (simp add: expo_def)
  have "1024 \<le> expo q" using f e by simp
  then have "(2::rat) powi 1024 \<le> 2 powi expo q" by (simp only: two_powi_le_iff)
  also have "\<dots> \<le> round_rat q" by (rule round_rat_lower [OF q e])
  finally have "(2::rat) ^ 1024 \<le> round_rat q" unfolding p .
  then show ?thesis by (simp only: round_double_def Let_def if_True)
qed



text \<open>Values of the rounding and of the arithmetic at some operands.\<close>

lemma round_double_int:
  assumes "0 < m" "m \<le> 2 ^ 53"
  shows "round_double (of_int m) = Num (of_int m)"
  using round_double_exact [OF assms, of 0] by simp

lemma round_double_tie_example: "round_double 9007199254740993 = Num 9007199254740992"
proof -
  have t: "round_even (9007199254740993 / 2 powi (53 - 52)) =
      (if even (4503599627370496::int) then 4503599627370496 else 4503599627370496 + 1)"
    by (rule round_even_tie) simp
  show ?thesis
    using round_double_at [of 53 9007199254740993, OF _ _ _ t] by simp
qed

lemma part_3_of_10: "js_add (Num 40) (js_mul (js_div (Num 3) (Num 10)) (Num 50)) = Num 55"
proof -
  have t1: "round_even (3 / 10 / 2 powi (- 2 - 52)) = 5404319552844595"
    by (rule round_even_eqI) simp_all
  have d: "round_double (3 / 10) = Num (5404319552844595 / 18014398509481984)"
    using round_double_at [of "- 2" "3 / 10", OF _ _ _ t1] by simp
  have t2: "round_even (5404319552844595 / 18014398509481984 * 50 / 2 powi (3 - 52)) =
      8444249301319680"
    by (rule round_even_eqI) simp_all
  have m: "round_double (5404319552844595 / 18014398509481984 * 50) = Num 15"
    using round_double_at [of 3 "5404319552844595 / 18014398509481984 * 50", OF _ _ _ t2] by simp
  have a: "round_double (40 + 15) = Num 55"
    using round_double_int [of 55] by simp
  have 1: "js_div (Num 3) (Num 10) = Num (5404319552844595 / 18014398509481984)"
    using d by simp
  have 2: "js_mul (Num (5404319552844595 / 18014398509481984)) (Num 50) = Num 15"
    using m by (simp only: js_mul.simps)
  have 3: "js_add (Num 40) (Num 15) = Num 55"
    using a by (simp only: js_add.simps)
  show ?thesis by (simp only: 1 2 3)
qed

lemma part_1_of_3:
  "js_add (Num 40) (js_mul (js_div (Num 1) (Num 3)) (Num 50)) =
     Num (7975124340135253 / 140737488355328)"
proof -
  have t1: "round_even (1 / 3 / 2 powi (- 2 - 52)) = 6004799503160661"
    by (rule round_even_eqI) simp_all
  have d: "round_double (1 / 3) = Num (6004799503160661 / 18014398509481984)"
    using round_double_at [of "- 2" "1 / 3", OF _ _ _ t1] by simp
  have t2: "round_even (6004799503160661 / 18014398509481984 * 50 / 2 powi (4 - 52)) =
      4691249611844266"
    by (rule round_even_eqI) simp_all
  have m: "round_double (6004799503160661 / 18014398509481984 * 50) =
      Num (4691249611844266 / 281474976710656)"
    using round_double_at [of 4 "6004799503160661 / 18014398509481984 * 50", OF _ _ _ t2] by simp
  have a: "round_double (40 + 4691249611844266 / 281474976710656) =
      Num (7975124340135253 / 140737488355328)"
    using round_double_exact [of 7975124340135253 47] by simp
  have 1: "js_div (Num 1) (Num 3) = Num (6004799503160661 / 18014398509481984)"
    using d by simp
  have 2: "js_mul (Num (6004799503160661 / 18014398509481984)) (Num 50) =
      Num (4691249611844266 / 281474976710656)"
    using m by (simp only: js_mul.simps)
  have 3: "js_add (Num 40) (Num (4691249611844266 / 281474976710656)) =
      Num (7975124340135253 / 140737488355328)"
    using a by (simp only: js_add.simps)
  show ?thesis by (simp only: 1 2 3)
qed




section \<open>Facts about the strings and the patterns\<close>

text \<open>\<open>js_includes\<close> is containment as a contiguous substring.\<close>

lemma starts_with_iff: "starts_with s p \<longleftrightarrow> (\<exists>v. s = p @ v)"
  by (induction s p rule: starts_with.induct) auto

lemma js_includes_iff: "js_includes s p \<longleftrightarrow> (\<exists>u v. s = u @ p @ v)"
proof (induction s)
  case Nil
  then show ?case by auto
next
  case (Cons c cs)
  show ?case
  proof
    assume "js_includes (c # cs) p"
    then consider "starts_with (c # cs) p" | "js_includes cs p" by auto
    then show "\<exists>u v. c # cs = u @ p @ v"
    proof cases
      case 1
      then obtain v where "c # cs = p @ v" by (auto simp: starts_with_iff)
      then have "c # cs = [] @ p @ v" by simp
      then show ?thesis by blast
    next
      case 2
      then obtain u v where "cs = u @ p @ v" using Cons.IH by auto
      then have "c # cs = (c # u) @ p @ v" by simp
      then show ?thesis by blast
    qed
  next
    assume "\<exists>u v. c # cs = u @ p @ v"
    then obtain u v where uv: "c # cs = u @ p @ v" by blast
    show "js_includes (c # cs) p"
    proof (cases u)
      case Nil
      with uv have "starts_with (c # cs) p" by (auto simp: starts_with_iff)
      then show ?thesis by simp
    next
      case (Cons a u')
      with uv have "cs = u' @ p @ v" by simp
      then have "js_includes cs p" using Cons.IH by blast
      then show ?thesis by simp
    qed
  qed
qed

lemma not_digit_percent: "\<not> is_digit CHR ''%''"
  by (simp add: is_digit_def)

lemma has_digit_percent_appendI:
  "is_digit d \<Longrightarrow> has_digit_percent (u @ d # CHR ''%'' # v)"
proof (induction u)
  case Nil
  then show ?case by simp
next
  case (Cons a u)
  then show ?case by (cases "u @ d # CHR ''%'' # v") auto
qed

lemma has_digit_percent_Cons: "has_digit_percent s \<Longrightarrow> has_digit_percent (a # s)"
  by (cases s) auto

lemma match_percent_at_Some:
  assumes "match_percent_at s = Some ds"
  shows "ds \<noteq> [] \<and> (\<forall>c\<in>set ds. is_digit c) \<and> (\<exists>v. s = ds @ CHR ''%'' # v)"
proof -
  from assms have ds: "ds = takeWhile is_digit s" and ne: "ds \<noteq> []"
    and sw: "starts_with (dropWhile is_digit s) ''%''"
    by (auto simp: match_percent_at_def Let_def split: if_splits)
  from sw obtain v where "dropWhile is_digit s = CHR ''%'' # v"
    by (auto simp: starts_with_iff)
  then have "s = ds @ CHR ''%'' # v"
    using ds takeWhile_dropWhile_id [of is_digit s] by simp
  moreover have "\<forall>c\<in>set ds. is_digit c"
    using ds by (auto dest: set_takeWhileD)
  ultimately show ?thesis using ne by blast
qed

lemma match_percent_at_digits:
  assumes "ds \<noteq> []" "\<forall>c\<in>set ds. is_digit c"
  shows "match_percent_at (ds @ CHR ''%'' # post) = Some ds"
  using assms by (simp add: match_percent_at_def not_digit_percent)

lemma match_percent_at_has: "match_percent_at s = Some ds \<Longrightarrow> has_digit_percent s"
proof -
  assume "match_percent_at s = Some ds"
  then obtain v where ne: "ds \<noteq> []" and dg: "\<forall>c\<in>set ds. is_digit c" and s: "s = ds @ CHR ''%'' # v"
    using match_percent_at_Some by blast
  from ne have "ds = butlast ds @ [last ds]" by simp
  then have "s = butlast ds @ last ds # CHR ''%'' # v" using s by (metis append.assoc append_Cons append_Nil)
  moreover have "is_digit (last ds)" using ne dg by simp
  ultimately show ?thesis using has_digit_percent_appendI by metis
qed

lemma match_percent_None_iff: "match_percent s = None \<longleftrightarrow> \<not> has_digit_percent s"
proof (induction s)
  case Nil
  then show ?case by simp
next
  case (Cons a s)
  show ?case
  proof (cases "match_percent_at (a # s)")
    case (Some ds)
    then show ?thesis using match_percent_at_has by auto
  next
    case None
    have "\<not> (is_digit a \<and> (\<exists>cs. s = CHR ''%'' # cs))"
    proof
      assume "is_digit a \<and> (\<exists>cs. s = CHR ''%'' # cs)"
      then obtain cs where "is_digit a" "s = CHR ''%'' # cs" by blast
      then have "match_percent_at (a # s) = Some [a]"
        using match_percent_at_digits [of "[a]" cs] by simp
      with None show False by simp
    qed
    then have "has_digit_percent (a # s) = has_digit_percent s"
      by (cases s) auto
    with None Cons.IH show ?thesis by simp
  qed
qed

lemma match_percent_at_append:
  assumes "x \<in> set pre" "\<not> is_digit x"
  shows "match_percent_at (pre @ r) = match_percent_at pre"
proof -
  have tw: "takeWhile is_digit (pre @ r) = takeWhile is_digit pre"
    using assms by simp
  have dw: "dropWhile is_digit (pre @ r) = dropWhile is_digit pre @ r"
    using assms by simp
  have "dropWhile is_digit pre \<noteq> []" using assms by auto
  then obtain y ys where "dropWhile is_digit pre = y # ys" by (cases "dropWhile is_digit pre") auto
  then show ?thesis by (simp add: match_percent_at_def tw dw)
qed

lemma match_percent_first:
  assumes "ds \<noteq> []" "\<forall>c\<in>set ds. is_digit c"
    and "pre = [] \<or> \<not> is_digit (last pre)" "\<not> has_digit_percent pre"
  shows "match_percent (pre @ ds @ CHR ''%'' # post) = Some ds"
  using assms(3,4)
proof (induction pre)
  case Nil
  from assms(1) obtain d ds' where "ds = d # ds'" by (cases ds) auto
  then show ?case using match_percent_at_digits [OF assms(1,2), of post] by simp
next
  case (Cons a pre)
  then have nd: "\<not> is_digit (last (a # pre))" by simp
  have "last (a # pre) \<in> set (a # pre)" by (rule last_in_set) simp
  then have "match_percent_at ((a # pre) @ ds @ CHR ''%'' # post) = match_percent_at (a # pre)"
    using nd match_percent_at_append by blast
  moreover have "match_percent_at (a # pre) = None"
    using Cons.prems(2) match_percent_at_has by (cases "match_percent_at (a # pre)") auto
  ultimately have "match_percent ((a # pre) @ ds @ CHR ''%'' # post) = match_percent (pre @ ds @ CHR ''%'' # post)"
    by simp
  moreover have "pre = [] \<or> \<not> is_digit (last pre)" using nd by (cases pre) auto
  moreover have "\<not> has_digit_percent pre" using Cons.prems(2) has_digit_percent_Cons by blast
  ultimately show ?case using Cons.IH by simp
qed

lemma parseInt_digits:
  "ds \<noteq> [] \<Longrightarrow> \<forall>c\<in>set ds. is_digit c \<Longrightarrow> parseInt ds = round_double (of_nat (dec_value ds))"
  by (simp add: parseInt_def Let_def takeWhile_eq_all_conv [THEN iffD2])

lemma parseInt_exact:
  assumes "ds \<noteq> []" "\<forall>c\<in>set ds. is_digit c" "dec_value ds \<le> 2 ^ 53"
  shows "parseInt ds = Num (of_nat (dec_value ds))"
  using parseInt_digits [OF assms(1,2)] round_double_nat [OF assms(3)] by simp

lemma match_percent_Some:
  "match_percent s = Some ds \<Longrightarrow> ds \<noteq> [] \<and> (\<forall>c\<in>set ds. is_digit c)"
proof (induction s)
  case Nil
  then show ?case by simp
next
  case (Cons a s)
  then show ?case
    by (cases "match_percent_at (a # s)") (auto dest: match_percent_at_Some)
qed



lemma parseProgress_part_rule:
  assumes "part_rule_fires s" "match_part s = Some (x, y)"
  shows "parseProgress s =
           js_add (Num 40) (js_mul (js_div (parseInt x) (parseInt y)) (Num 50))"
  using assms by (simp add: parseProgress_def part_rule_fires_def)

lemma parseProgress_no_part_rule:
  assumes "\<not> part_rule_fires s"
  shows "parseProgress s =
     (if js_includes s ''%'' then
        (case match_percent s of Some m1 \<Rightarrow> parseInt m1 | None \<Rightarrow> Num 0)
      else if js_includes s ''Starting'' then Num 5
      else if js_includes s ''download'' then Num 20
      else if js_includes s ''Processing'' then Num 40
      else completed_or_zero s)"
  using assms by (auto simp: parseProgress_def part_rule_fires_def split: option.splits)

text \<open>
  A text in which some digit stands before a \<^verbatim>\<open>%\<close> has a first run of digits that a
  \<^verbatim>\<open>%\<close> follows, and that run is what the pattern captures.
\<close>

lemma match_percent_leftmost:
  "match_percent s = Some ds \<Longrightarrow>
     \<exists>pre post. s = pre @ ds @ ''%'' @ post \<and>
       (pre = [] \<or> \<not> is_digit (last pre)) \<and> \<not> has_digit_percent pre"
proof (induction s)
  case Nil
  then show ?case by simp
next
  case (Cons a s)
  show ?case
  proof (cases "match_percent_at (a # s)")
    case (Some e)
    with Cons.prems have "match_percent_at (a # s) = Some ds" by simp
    then obtain v where "a # s = ds @ CHR ''%'' # v" using match_percent_at_Some by blast
    then have "a # s = [] @ ds @ ''%'' @ v \<and> ([] = [] \<or> \<not> is_digit (last [])) \<and>
        \<not> has_digit_percent []"
      by simp
    then show ?thesis by blast
  next
    case None
    with Cons.prems have m: "match_percent s = Some ds" by simp
    then obtain pre post where s: "s = pre @ ds @ ''%'' @ post"
      and l: "pre = [] \<or> \<not> is_digit (last pre)" and n: "\<not> has_digit_percent pre"
      using Cons.IH by blast
    have ds: "ds \<noteq> []" "\<forall>c\<in>set ds. is_digit c" using match_percent_Some [OF m] by simp_all
    have 1: "\<not> is_digit (last (a # pre))"
    proof (cases pre)
      case Nil
      show ?thesis
      proof
        assume "is_digit (last (a # pre))"
        then have "a # ds \<noteq> []" "\<forall>c\<in>set (a # ds). is_digit c" using Nil ds by simp_all
        then have "match_percent_at ((a # ds) @ CHR ''%'' # post) = Some (a # ds)"
          by (rule match_percent_at_digits)
        with None s Nil show False by simp
      qed
    next
      case (Cons b cs)
      with l show ?thesis by simp
    qed
    have 2: "\<not> has_digit_percent (a # pre)"
    proof
      assume h: "has_digit_percent (a # pre)"
      with n obtain cs where a: "is_digit a" and pre: "pre = CHR ''%'' # cs"
        by (cases pre) auto
      have "match_percent_at ([a] @ CHR ''%'' # cs @ ds @ ''%'' @ post) = Some [a]"
        using a by (intro match_percent_at_digits) simp_all
      with None s pre show False by simp
    qed
    have "a # s = (a # pre) @ ds @ ''%'' @ post" using s by simp
    with 1 2 show ?thesis by blast
  qed
qed

lemma has_digit_percent_first_run:
  assumes "has_digit_percent s"
  shows "\<exists>pre ds post. s = pre @ ds @ ''%'' @ post \<and> ds \<noteq> [] \<and> (\<forall>c\<in>set ds. is_digit c) \<and>
           (pre = [] \<or> \<not> is_digit (last pre)) \<and> \<not> has_digit_percent pre"
proof -
  from assms obtain ds where m: "match_percent s = Some ds"
    using match_percent_None_iff [of s] by (cases "match_percent s") auto
  from match_percent_leftmost [OF m] match_percent_Some [OF m] show ?thesis by blast
qed

text \<open>
  What the second pattern finds is an occurrence of \<^verbatim>\<open>part X of Y\<close> in the text, with both
  runs of digits taken whole; and a text that has such an occurrence has a match.
\<close>

lemma not_digit_space: "\<not> is_digit CHR '' ''"
  by (simp add: is_digit_def)

lemma match_part_at_shape:
  assumes "match_part_at s = Some (x, y)"
  shows "\<exists>post. s = ''part '' @ x @ '' of '' @ y @ post \<and> (post = [] \<or> \<not> is_digit (hd post))"
proof -
  let ?s1 = "drop 5 s"
  let ?s2 = "dropWhile is_digit ?s1"
  let ?s3 = "drop 4 ?s2"
  from assms have p: "starts_with s ''part ''" and q: "starts_with ?s2 '' of ''"
    and x: "x = takeWhile is_digit ?s1" and y: "y = takeWhile is_digit ?s3"
    by (auto simp: match_part_at_def Let_def split: if_splits)
  from p obtain v where v: "s = ''part '' @ v" unfolding starts_with_iff by blast
  then have s1: "?s1 = v" by simp
  from q obtain w where w: "?s2 = '' of '' @ w" unfolding starts_with_iff by blast
  then have s3: "?s3 = w" by simp
  have "v = x @ ?s2" using x s1 by simp
  moreover have "w = y @ dropWhile is_digit w" using y s3 by simp
  ultimately have "s = ''part '' @ x @ '' of '' @ y @ dropWhile is_digit w"
    using v w by (metis append.assoc)
  moreover have "dropWhile is_digit w = [] \<or> \<not> is_digit (hd (dropWhile is_digit w))"
    using hd_dropWhile [of is_digit w] by blast
  ultimately show ?thesis by blast
qed

lemma match_part_shape:
  "match_part s = Some (x, y) \<Longrightarrow>
     \<exists>pre post. s = pre @ ''part '' @ x @ '' of '' @ y @ post \<and>
       (post = [] \<or> \<not> is_digit (hd post))"
proof (induction s)
  case Nil
  then show ?case by simp
next
  case (Cons a s)
  show ?case
  proof (cases "match_part_at (a # s)")
    case None
    with Cons.prems have "match_part s = Some (x, y)" by simp
    then obtain pre post where "s = pre @ ''part '' @ x @ '' of '' @ y @ post"
      and "post = [] \<or> \<not> is_digit (hd post)"
      using Cons.IH by blast
    then have "a # s = (a # pre) @ ''part '' @ x @ '' of '' @ y @ post \<and>
        (post = [] \<or> \<not> is_digit (hd post))"
      by simp
    then show ?thesis by blast
  next
    case (Some m)
    with Cons.prems have "match_part_at (a # s) = Some (x, y)" by simp
    then obtain post where "a # s = [] @ ''part '' @ x @ '' of '' @ y @ post \<and>
        (post = [] \<or> \<not> is_digit (hd post))"
      using match_part_at_shape by fastforce
    then show ?thesis by blast
  qed
qed

lemma match_part_at_found:
  assumes "x \<noteq> []" "\<forall>c\<in>set x. is_digit c" "y \<noteq> []" "\<forall>c\<in>set y. is_digit c"
  shows "match_part_at (''part '' @ x @ '' of '' @ y @ post) = Some (x, y @ takeWhile is_digit post)"
proof -
  have 1: "takeWhile is_digit (x @ '' of '' @ y @ post) = x"
    using assms(2) by (simp add: not_digit_space)
  have 2: "dropWhile is_digit (x @ '' of '' @ y @ post) = '' of '' @ y @ post"
    using assms(2) by (simp add: not_digit_space)
  have 3: "takeWhile is_digit (y @ post) = y @ takeWhile is_digit post"
    using assms(4) by simp
  have "drop 5 (''part '' @ x @ '' of '' @ y @ post) = x @ '' of '' @ y @ post" by simp
  moreover have "drop 4 ('' of '' @ y @ post) = y @ post" by simp
  moreover have "starts_with (''part '' @ x @ '' of '' @ y @ post) ''part ''"
    unfolding starts_with_iff by blast
  moreover have "starts_with ('' of '' @ y @ post) '' of ''"
    unfolding starts_with_iff by blast
  ultimately show ?thesis
    unfolding match_part_at_def Let_def using 1 2 3 assms(1,3) by simp
qed

lemma match_part_found:
  assumes "x \<noteq> []" "\<forall>c\<in>set x. is_digit c" "y \<noteq> []" "\<forall>c\<in>set y. is_digit c"
  shows "match_part (pre @ ''part '' @ x @ '' of '' @ y @ post) \<noteq> None"
proof (induction pre)
  case Nil
  have "match_part_at (CHR ''p'' # ''art '' @ x @ '' of '' @ y @ post) =
      Some (x, y @ takeWhile is_digit post)"
    using match_part_at_found [OF assms, of post] by simp
  then show ?case by simp
next
  case (Cons a pre)
  then show ?case
    by (cases "match_part_at (a # pre @ ''part '' @ x @ '' of '' @ y @ post)") simp_all
qed

text \<open>The two rules of \<open>parseProgress\<close> that read numbers.\<close>

lemma parseProgress_percent_rule:
  "js_includes s ''%'' \<Longrightarrow> match_percent s = Some ds \<Longrightarrow> parseProgress s = parseInt ds"
  by (simp add: parseProgress_def)

lemma parseInt_value:
  assumes "ds \<noteq> []" "\<forall>c\<in>set ds. is_digit c" "dec_value ds = n" "n \<le> 2 ^ 53"
  shows "parseInt ds = Num (of_nat n)"
  using parseInt_exact [OF assms(1,2)] assms(3,4) by simp


section \<open>Facts about the page\<close>

text \<open>What each operation does to each part of the page.\<close>

lemma polling_page_eq:
  "polling_page =
     \<lparr>isTranscribing = True, progressInterval = Some 0,
      transcribeButton_disabled = True, urlInput_disabled = True,
      progressBar_value = Num 0, progressText_textContent = ''Starting transcription...'',
      progressText_color = [], transcriptionOutput_value = [],
      timers = {0}, timers_created = Suc 0,
      requests = [PostTranscribe ''https://youtu.be/abc'' ''base'']\<rparr>"
  by (simp add: polling_page_def page0_def on_click_def trim_def is_white_space_def
      handleTranscription_def handleTranscription_settled_def startProgressChecking_def
      setInterval_def updateUI_def fetch_def Let_def)

lemma loaded_page0: "loaded page0"
  by (simp add: loaded_def page0_def)

lemma reachable_polling_page: "reachable polling_page"
  unfolding polling_page_def by (intro reachable.after reachable.start loaded_page0)

lemma resetState_simps:
  "isTranscribing (resetState st) = False"
  "progressInterval (resetState st) = None"
  "transcribeButton_disabled (resetState st) = False"
  "urlInput_disabled (resetState st) = False"
  "progressBar_value (resetState st) = progressBar_value st"
  "progressText_textContent (resetState st) = progressText_textContent st"
  "progressText_color (resetState st) = progressText_color st"
  "transcriptionOutput_value (resetState st) = transcriptionOutput_value st"
  "timers (resetState st) = timers st - set_option (progressInterval st)"
  "timers_created (resetState st) = timers_created st"
  "requests (resetState st) = requests st"
  by (simp_all add: resetState_def clearInterval_def Let_def split: option.splits)

lemma showError_simps:
  "isTranscribing (showError m st) = False"
  "progressInterval (showError m st) = None"
  "transcribeButton_disabled (showError m st) = False"
  "urlInput_disabled (showError m st) = False"
  "progressBar_value (showError m st) = progressBar_value st"
  "progressText_textContent (showError m st) = ''Error: '' @ m"
  "progressText_color (showError m st) = ''red''"
  "transcriptionOutput_value (showError m st) = transcriptionOutput_value st"
  "timers (showError m st) = timers st - set_option (progressInterval st)"
  "timers_created (showError m st) = timers_created st"
  "requests (showError m st) = requests st"
  by (simp_all add: showError_def resetState_simps)

lemma updateUI_simps:
  "isTranscribing (updateUI b p m t st) = isTranscribing st"
  "progressInterval (updateUI b p m t st) = progressInterval st"
  "transcribeButton_disabled (updateUI b p m t st) = b"
  "urlInput_disabled (updateUI b p m t st) = b"
  "progressBar_value (updateUI b p m t st) = (if truthy_num p then p else Num 0)"
  "progressText_textContent (updateUI b p m t st) = m"
  "progressText_color (updateUI b p m t st) = progressText_color st"
  "transcriptionOutput_value (updateUI b p m t st) =
     (if truthy_str t then or_else t [] else transcriptionOutput_value st)"
  "timers (updateUI b p m t st) = timers st"
  "timers_created (updateUI b p m t st) = timers_created st"
  "requests (updateUI b p m t st) = requests st"
  by (simp_all add: updateUI_def Let_def split: option.splits)

lemma fetch_simps:
  "isTranscribing (fetch r st) = isTranscribing st"
  "progressInterval (fetch r st) = progressInterval st"
  "transcribeButton_disabled (fetch r st) = transcribeButton_disabled st"
  "urlInput_disabled (fetch r st) = urlInput_disabled st"
  "progressBar_value (fetch r st) = progressBar_value st"
  "progressText_textContent (fetch r st) = progressText_textContent st"
  "progressText_color (fetch r st) = progressText_color st"
  "transcriptionOutput_value (fetch r st) = transcriptionOutput_value st"
  "timers (fetch r st) = timers st"
  "timers_created (fetch r st) = timers_created st"
  "requests (fetch r st) = requests st @ [r]"
  by (simp_all add: fetch_def)

lemma startProgressChecking_simps:
  "isTranscribing (startProgressChecking st) = isTranscribing st"
  "progressInterval (startProgressChecking st) = Some (timers_created st)"
  "timers (startProgressChecking st) =
     insert (timers_created st) (timers st - set_option (progressInterval st))"
  "timers_created (startProgressChecking st) = Suc (timers_created st)"
  "requests (startProgressChecking st) = requests st"
  by (simp_all add: startProgressChecking_def setInterval_def clearInterval_def Let_def
      split: option.splits)

text \<open>Every run keeps the invariant of the timers.\<close>

lemma error_shown_showError: "error_shown m (showError m st)"
  by (simp add: error_shown_def showError_simps)

lemma timers_inv_resetState: "timers_inv st \<Longrightarrow> timers_inv (resetState st)"
  by (simp add: timers_inv_def resetState_simps)

lemma timers_inv_showError: "timers_inv st \<Longrightarrow> timers_inv (showError m st)"
  by (simp add: timers_inv_def showError_simps)

lemma timers_inv_updateUI: "timers_inv st \<Longrightarrow> timers_inv (updateUI b p m t st)"
  by (simp add: timers_inv_def updateUI_simps)

lemma timers_inv_fetch: "timers_inv st \<Longrightarrow> timers_inv (fetch r st)"
  by (simp add: timers_inv_def fetch_simps)

lemma timers_inv_busy: "timers_inv st \<Longrightarrow> timers_inv (st\<lparr>isTranscribing := b\<rparr>)"
  by (simp add: timers_inv_def)

lemma timers_inv_startProgressChecking:
  "timers_inv st \<Longrightarrow> timers_inv (startProgressChecking st)"
  by (simp add: timers_inv_def startProgressChecking_simps)

lemma timers_inv_handle_errors: "timers_inv st \<Longrightarrow> timers_inv (handle_errors d st)"
  by (simp add: handle_errors_def timers_inv_showError)

lemma timers_inv_on_click: "timers_inv st \<Longrightarrow> timers_inv (on_click v m st)"
  by (simp add: on_click_def Let_def handleTranscription_def timers_inv_showError
      timers_inv_fetch timers_inv_updateUI timers_inv_busy)

lemma timers_inv_step:
  assumes "timers_inv st"
  shows "timers_inv (step ev st)"
proof (cases ev)
  case (Click v m)
  with assms show ?thesis by (simp add: timers_inv_on_click)
next
  case (Keypress k v m)
  with assms show ?thesis by (simp add: on_keypress_def timers_inv_on_click)
next
  case (TranscribeSettled r)
  with assms show ?thesis
    by (simp add: handleTranscription_settled_def Let_def timers_inv_showError
        timers_inv_startProgressChecking split: settled.splits)
next
  case Tick
  with assms show ?thesis by (simp add: checkProgress_def timers_inv_fetch)
next
  case (ProgressSettled r)
  with assms show ?thesis
    by (simp add: checkProgress_settled_def Let_def timers_inv_showError timers_inv_fetch
        timers_inv_resetState timers_inv_updateUI timers_inv_handle_errors split: settled.splits)
next
  case (CleanupSettled c d)
  with assms show ?thesis
    by (simp add: checkProgress_cleaned_def timers_inv_showError timers_inv_handle_errors
        split: settled.splits)
next
  case BeforeUnload
  with assms show ?thesis by (simp add: on_beforeunload_def timers_inv_fetch)
qed

lemma reachable_timers_inv: "reachable st \<Longrightarrow> timers_inv st"
proof (induction rule: reachable.induct)
  case (start st)
  then show ?case by (simp add: loaded_def timers_inv_def)
next
  case (after st ev)
  from after.IH show ?case by (rule timers_inv_step)
qed

text \<open>The tick that finds a completion signal, and what the last piece leaves alone.\<close>

lemma checkProgress_settled_completion:
  assumes "completion_signal data"
  shows "checkProgress_settled (Fulfilled True data) st =
     (fetch PostCleanup
        (resetState
           (updateUI False (Num 100) ''Transcription completed!'' (transcription data)
              (if truthy_str (progress data)
                 then updateUI True (parseProgress (or_else (progress data) []))
                        (or_else (progress data) []) (transcription data) st
                 else st))),
      Some data)"
  using assms by (simp add: checkProgress_settled_def Let_def)

lemma requests_handle_errors: "requests (handle_errors d st) = requests st"
  by (simp add: handle_errors_def showError_simps)

lemma progressBar_handle_errors: "progressBar_value (handle_errors d st) = progressBar_value st"
  by (simp add: handle_errors_def showError_simps)

lemma requests_checkProgress_cleaned: "requests (checkProgress_cleaned c d st) = requests st"
  by (cases c) (simp_all add: checkProgress_cleaned_def showError_simps requests_handle_errors)

section \<open>Properties of parseProgress\<close>

text \<open>
  C1 does not hold as stated: what \<open>parseProgress\<close> returns is a double, so a run of digits
  whose value is no double comes back rounded. The run \<^verbatim>\<open>9007199254740993\<close> is \<open>2 ^ 53 + 1\<close>
  and gives \<open>2 ^ 53\<close>.
\<close>

theorem parseProgress_percent_rounded:
  "dec_value ''9007199254740993'' = 9007199254740993 \<and>
   parseProgress ''9007199254740993%'' = Num 9007199254740992"
proof -
  have i: "js_includes ''9007199254740993%'' ''%''" by code_simp
  have m: "match_percent ''9007199254740993%'' = Some ''9007199254740993''" by code_simp
  have d: "dec_value ''9007199254740993'' = 9007199254740993"
    by (simp add: dec_value_def digit_val_def)
  have "parseInt ''9007199254740993'' = round_double (of_nat (dec_value ''9007199254740993''))"
    by (rule parseInt_digits) (simp_all add: is_digit_def)
  then have "parseInt ''9007199254740993'' = Num 9007199254740992"
    by (simp add: d round_double_tie_example)
  with parseProgress_percent_rule [OF i m] d show ?thesis by simp
qed

text \<open>
  C1, amended. A text in which a run of digits is immediately followed by \<^verbatim>\<open>%\<close>:
  \<open>parseProgress\<close> returns the value \<open>N\<close> of that run, read as a decimal integer and rounded
  to the nearest double, which is \<open>N\<close> itself whenever \<open>N\<close> is at most \<open>2 ^ 53\<close>. Where the text
  has several such runs the pattern finds the leftmost, so the run \<open>ds\<close> is taken whole (no
  digit stands before it) and first (before it no digit is followed by \<^verbatim>\<open>%\<close>). Every text
  with a digit before a \<^verbatim>\<open>%\<close> splits in this way, by \<open>has_digit_percent_first_run\<close>.
\<close>

theorem parseProgress_percent:
  assumes "ds \<noteq> []" "\<forall>c\<in>set ds. is_digit c"
    and "pre = [] \<or> \<not> is_digit (last pre)" "\<not> has_digit_percent pre"
  shows "parseProgress (pre @ ds @ ''%'' @ post) = round_double (of_nat (dec_value ds)) \<and>
         (dec_value ds \<le> 2 ^ 53 \<longrightarrow>
            parseProgress (pre @ ds @ ''%'' @ post) = Num (of_nat (dec_value ds)))"
proof -
  have "js_includes (pre @ ds @ ''%'' @ post) ''%''"
    unfolding js_includes_iff by (metis append.assoc)
  moreover have "match_percent (pre @ ds @ ''%'' @ post) = Some ds"
    using match_percent_first [OF assms] by simp
  ultimately have "parseProgress (pre @ ds @ ''%'' @ post) = parseInt ds"
    by (rule parseProgress_percent_rule)
  then show ?thesis
    using parseInt_digits [OF assms(1,2)] parseInt_exact [OF assms(1,2)] by simp
qed

theorem parseProgress_percent_witness:
  "parseProgress ''Process completed 100%'' = Num 100"
proof -
  have a: "''100'' \<noteq> []" by simp
  have b: "\<forall>c\<in>set ''100''. is_digit c" by (simp add: is_digit_def)
  have c: "''Process completed '' = [] \<or> \<not> is_digit (last ''Process completed '')"
    by (simp add: is_digit_def)
  have d: "\<not> has_digit_percent ''Process completed ''" by (simp add: is_digit_def)
  have e: "dec_value ''100'' = 100" by (simp add: dec_value_def digit_val_def)
  have f: "dec_value ''100'' \<le> 2 ^ 53" by (simp add: e)
  from parseProgress_percent [OF a b c d, of "[]", THEN conjunct2, THEN mp, OF f]
  show ?thesis by (simp add: e)
qed

text \<open>
  C2 does not hold as stated: \<open>parseProgress\<close> has no clamp, so a digit run above 100 is
  returned as it is, and the rule of \<^verbatim>\<open>part X of Y\<close> returns a quotient that need not be
  an integer.
\<close>

theorem parseProgress_not_percentage:
  "\<not> is_percentage (parseProgress ''150%'') \<and>
   \<not> is_percentage (parseProgress ''Transcribing part 1 of 3'')"
proof -
  have i: "js_includes ''150%'' ''%''" by code_simp
  have m: "match_percent ''150%'' = Some ''150''" by code_simp
  have "parseInt ''150'' = Num (of_nat 150)"
    by (rule parseInt_value) (simp_all add: is_digit_def dec_value_def digit_val_def)
  with parseProgress_percent_rule [OF i m] have a: "parseProgress ''150%'' = Num 150" by simp
  have f: "part_rule_fires ''Transcribing part 1 of 3''" by code_simp
  have p: "match_part ''Transcribing part 1 of 3'' = Some (''1'', ''3'')" by code_simp
  have x: "parseInt ''1'' = Num (of_nat 1)"
    by (rule parseInt_value) (simp_all add: is_digit_def dec_value_def digit_val_def)
  have y: "parseInt ''3'' = Num (of_nat 3)"
    by (rule parseInt_value) (simp_all add: is_digit_def dec_value_def digit_val_def)
  have b: "parseProgress ''Transcribing part 1 of 3'' = Num (7975124340135253 / 140737488355328)"
    using parseProgress_part_rule [OF f p] x y part_1_of_3 by simp
  have "(7975124340135253 / 140737488355328 :: rat) \<notin> \<int>"
  proof
    assume "(7975124340135253 / 140737488355328 :: rat) \<in> \<int>"
    then obtain k :: int where k: "(7975124340135253 / 140737488355328 :: rat) = of_int k"
      by (auto elim: Ints_cases)
    have "(of_int 56 :: rat) < 7975124340135253 / 140737488355328" by simp
    then have "(of_int 56 :: rat) < of_int k" by (simp only: k)
    then have 1: "56 < k" by (simp only: of_int_less_iff)
    have "(7975124340135253 / 140737488355328 :: rat) < of_int 57" by simp
    then have "(of_int k :: rat) < of_int 57" by (simp only: k)
    then have "k < 57" by (simp only: of_int_less_iff)
    with 1 show False by simp
  qed
  then show ?thesis using a b by simp
qed

text \<open>
  C2, amended. Where the digit run that the percent rule reads is at most 100 and the rule
  of \<^verbatim>\<open>part X of Y\<close> is not the one that decides, the value that \<open>parseProgress\<close> returns is
  an integer in the closed interval from 0 to 100.
\<close>

theorem parseProgress_percentage:
  assumes "\<forall>ds. match_percent s = Some ds \<longrightarrow> dec_value ds \<le> 100"
    and "\<not> part_rule_fires s"
  shows "is_percentage (parseProgress s)"
proof (cases "match_percent s")
  case None
  then show ?thesis
    by (simp add: parseProgress_no_part_rule [OF assms(2)] completed_or_zero_def)
next
  case (Some ds)
  with assms(1) have le: "dec_value ds \<le> 100" by simp
  then have "dec_value ds \<le> 2 ^ 53" by simp
  then have "parseInt ds = Num (of_nat (dec_value ds))"
    using match_percent_Some [OF Some] by (simp add: parseInt_exact)
  moreover have "(of_nat (dec_value ds) :: rat) \<le> 100"
    using le by (metis of_nat_le_iff of_nat_numeral)
  ultimately show ?thesis
    using Some by (simp add: parseProgress_no_part_rule [OF assms(2)] completed_or_zero_def)
qed

theorem parseProgress_percentage_witness:
  "is_percentage (parseProgress ''Process completed 100%'')"
proof -
  have m: "match_percent ''Process completed 100%'' = Some ''100''" by code_simp
  have d: "dec_value ''100'' = 100" by code_simp
  have a: "\<forall>ds. match_percent ''Process completed 100%'' = Some ds \<longrightarrow> dec_value ds \<le> 100"
    using m d by simp
  have b: "\<not> part_rule_fires ''Process completed 100%''" by code_simp
  show ?thesis using parseProgress_percentage [OF a b] .
qed

text \<open>
  C3 does not hold as stated. The quotient is not clamped: with \<open>X\<close> above \<open>Y\<close> the value
  is above 90. And a \<^verbatim>\<open>%\<close> that no digit precedes already keeps the text from the stage
  rules: \<open>parseProgress\<close> then returns 0.
\<close>




text \<open>
  C4 does not hold as stated: a text with \<^verbatim>\<open>Starting\<close> and a \<^verbatim>\<open>%\<close> that no digit precedes
  gets 0, not 5. The first rule asks for a \<^verbatim>\<open>%\<close> only, and returns 0 itself when there are
  no digits to read.
\<close>

theorem parseProgress_starting_percent:
  "js_includes ''Starting... %'' ''Starting'' \<and>
   js_includes ''Starting... %'' ''%'' \<and>
   \<not> has_digit_percent ''Starting... %'' \<and>
   match_percent ''Starting... %'' = None \<and>
   parseProgress ''Starting... %'' = Num 0 \<and>
   parseProgress ''Starting... %'' \<noteq> Num 5"
  by code_simp

text \<open>
  C4, amended. \<open>parseProgress\<close> applies its rules in this order: a text that contains
  \<^verbatim>\<open>%\<close> gets the value of the first run of digits that a \<^verbatim>\<open>%\<close> follows, or 0 when there is
  no such run; only a text without any \<^verbatim>\<open>%\<close> reaches the stage rules, and gets 5 for
  \<^verbatim>\<open>Starting\<close>, else 20 for \<^verbatim>\<open>download\<close>, else 40 for \<^verbatim>\<open>Processing\<close>, else the value of the
  rule of \<^verbatim>\<open>part X of Y\<close> under \<^verbatim>\<open>Transcribing\<close>, else 100 for \<^verbatim>\<open>completed\<close>, else 0.
\<close>

theorem parseProgress_priority:
  "(has_digit_percent s \<longrightarrow>
      (\<exists>ds. match_percent s = Some ds \<and> parseProgress s = parseInt ds)) \<and>
   (js_includes s ''%'' \<and> \<not> has_digit_percent s \<longrightarrow> parseProgress s = Num 0) \<and>
   (\<not> js_includes s ''%'' \<and> js_includes s ''Starting'' \<longrightarrow> parseProgress s = Num 5) \<and>
   (\<not> js_includes s ''%'' \<and> \<not> js_includes s ''Starting'' \<and> js_includes s ''download'' \<longrightarrow>
      parseProgress s = Num 20) \<and>
   (\<not> js_includes s ''%'' \<and> \<not> js_includes s ''Starting'' \<and> \<not> js_includes s ''download'' \<and>
    js_includes s ''Processing'' \<longrightarrow> parseProgress s = Num 40) \<and>
   (\<not> js_includes s ''%'' \<and> \<not> js_includes s ''Starting'' \<and> \<not> js_includes s ''download'' \<and>
    \<not> js_includes s ''Processing'' \<and> js_includes s ''Transcribing'' \<and> match_part s \<noteq> None \<longrightarrow>
      (\<exists>x y. match_part s = Some (x, y) \<and>
         parseProgress s =
           js_add (Num 40)
             (js_mul (js_div (parseInt x) (parseInt y)) (Num 50)))) \<and>
   (\<not> js_includes s ''%'' \<and> \<not> js_includes s ''Starting'' \<and> \<not> js_includes s ''download'' \<and>
    \<not> js_includes s ''Processing'' \<and> (\<not> js_includes s ''Transcribing'' \<or> match_part s = None) \<and>
    js_includes s ''completed'' \<longrightarrow> parseProgress s = Num 100) \<and>
   (\<not> js_includes s ''%'' \<and> \<not> js_includes s ''Starting'' \<and> \<not> js_includes s ''download'' \<and>
    \<not> js_includes s ''Processing'' \<and> (\<not> js_includes s ''Transcribing'' \<or> match_part s = None) \<and>
    \<not> js_includes s ''completed'' \<longrightarrow> parseProgress s = Num 0)"
proof -
  have r1: "\<exists>ds. match_percent s = Some ds \<and> parseProgress s = parseInt ds"
    if "has_digit_percent s"
  proof -
    from that obtain ds where m: "match_percent s = Some ds"
      using match_percent_None_iff [of s] by (cases "match_percent s") auto
    from match_percent_leftmost [OF m] obtain pre post where "s = pre @ ds @ ''%'' @ post"
      by blast
    then have "s = (pre @ ds) @ ''%'' @ post" by simp
    then have "js_includes s ''%''" unfolding js_includes_iff by blast
    then show ?thesis using m by (simp add: parseProgress_def)
  qed
  have r2: "parseProgress s = Num 0" if "js_includes s ''%''" "\<not> has_digit_percent s"
    using that match_percent_None_iff [of s] by (simp add: parseProgress_def)
  have r6: "\<exists>x y. match_part s = Some (x, y) \<and>
         parseProgress s =
           js_add (Num 40)
             (js_mul (js_div (parseInt x) (parseInt y)) (Num 50))"
    if "part_rule_fires s"
  proof -
    from that obtain x y where m: "match_part s = Some (x, y)"
      by (auto simp: part_rule_fires_def)
    then show ?thesis using parseProgress_part_rule [OF that m] by blast
  qed
  have rest: "\<not> js_includes s ''%'' \<Longrightarrow> \<not> part_rule_fires s \<Longrightarrow> parseProgress s =
      (if js_includes s ''Starting'' then Num 5
       else if js_includes s ''download'' then Num 20
       else if js_includes s ''Processing'' then Num 40
       else if js_includes s ''completed'' then Num 100 else Num 0)"
    by (simp add: parseProgress_no_part_rule completed_or_zero_def)
  show ?thesis
    apply (intro conjI impI)
    subgoal using r1 by blast
    subgoal using r2 by blast
    subgoal using rest by (simp add: part_rule_fires_def)
    subgoal using rest by (simp add: part_rule_fires_def)
    subgoal using rest by (simp add: part_rule_fires_def)
    subgoal using r6 by (simp add: part_rule_fires_def)
    subgoal using rest by (auto simp add: part_rule_fires_def)
    subgoal using rest by (auto simp add: part_rule_fires_def)
    done
qed

theorem parseProgress_priority_witness:
  "parseProgress ''Process completed 100%'' = Num 100 \<and>
   parseProgress ''Starting... %'' = Num 0 \<and>
   parseProgress ''Starting transcription...'' = Num 5 \<and>
   parseProgress ''Video download'' = Num 20 \<and>
   parseProgress ''Processing audio'' = Num 40 \<and>
   parseProgress ''Transcribing part 3 of 10'' = Num 55 \<and>
   parseProgress ''Transcribing completed'' = Num 100 \<and>
   parseProgress ''Idle'' = Num 0"
proof -
  note rules = parseProgress_priority
  have r1: "parseProgress ''Process completed 100%'' = Num 100"
  proof -
    have "has_digit_percent ''Process completed 100%''" by code_simp
    then have "\<exists>ds. match_percent ''Process completed 100%'' = Some ds \<and>
        parseProgress ''Process completed 100%'' = parseInt ds"
      by (rule rules [THEN conjunct1, THEN mp])
    then obtain ds where m: "match_percent ''Process completed 100%'' = Some ds"
      and v: "parseProgress ''Process completed 100%'' = parseInt ds"
      by (elim exE conjE)
    have "match_percent ''Process completed 100%'' = Some ''100''" by code_simp
    with m have "ds = ''100''" by simp
    moreover have "parseInt ''100'' = Num (of_nat 100)"
      by (rule parseInt_value) (simp_all add: is_digit_def dec_value_def digit_val_def)
    ultimately show ?thesis using v by simp
  qed
  have r2: "parseProgress ''Starting... %'' = Num 0"
  proof -
    have "js_includes ''Starting... %'' ''%'' \<and> \<not> has_digit_percent ''Starting... %''"
      by code_simp
    then show ?thesis
      by (rule rules [THEN conjunct2, THEN conjunct1, THEN mp])
  qed
  have r3: "parseProgress ''Starting transcription...'' = Num 5"
  proof -
    have "\<not> js_includes ''Starting transcription...'' ''%'' \<and>
          js_includes ''Starting transcription...'' ''Starting''"
      by code_simp
    then show ?thesis
      by (rule rules [THEN conjunct2, THEN conjunct2, THEN conjunct1, THEN mp])
  qed
  have r4: "parseProgress ''Video download'' = Num 20"
  proof -
    have "\<not> js_includes ''Video download'' ''%'' \<and> \<not> js_includes ''Video download'' ''Starting'' \<and>
          js_includes ''Video download'' ''download''"
      by code_simp
    then show ?thesis
      by (rule rules [THEN conjunct2, THEN conjunct2, THEN conjunct2, THEN conjunct1, THEN mp])
  qed
  have r5: "parseProgress ''Processing audio'' = Num 40"
  proof -
    have "\<not> js_includes ''Processing audio'' ''%'' \<and> \<not> js_includes ''Processing audio'' ''Starting'' \<and>
          \<not> js_includes ''Processing audio'' ''download'' \<and>
          js_includes ''Processing audio'' ''Processing''"
      by code_simp
    then show ?thesis
      by (rule rules [THEN conjunct2, THEN conjunct2, THEN conjunct2, THEN conjunct2,
            THEN conjunct1, THEN mp])
  qed
  have r6: "parseProgress ''Transcribing part 3 of 10'' = Num 55"
  proof -
    have m: "match_part ''Transcribing part 3 of 10'' = Some (''3'', ''10'')" by code_simp
    have "\<not> js_includes ''Transcribing part 3 of 10'' ''%'' \<and>
          \<not> js_includes ''Transcribing part 3 of 10'' ''Starting'' \<and>
          \<not> js_includes ''Transcribing part 3 of 10'' ''download'' \<and>
          \<not> js_includes ''Transcribing part 3 of 10'' ''Processing'' \<and>
          js_includes ''Transcribing part 3 of 10'' ''Transcribing'' \<and>
          match_part ''Transcribing part 3 of 10'' \<noteq> None"
      by code_simp
    then have "\<exists>x y. match_part ''Transcribing part 3 of 10'' = Some (x, y) \<and>
        parseProgress ''Transcribing part 3 of 10'' =
          js_add (Num 40)
            (js_mul (js_div (parseInt x) (parseInt y)) (Num 50))"
      by (rule rules [THEN conjunct2, THEN conjunct2, THEN conjunct2, THEN conjunct2,
            THEN conjunct2, THEN conjunct1, THEN mp])
    then obtain x y where xy: "match_part ''Transcribing part 3 of 10'' = Some (x, y)"
      and v: "parseProgress ''Transcribing part 3 of 10'' =
           js_add (Num 40)
             (js_mul (js_div (parseInt x) (parseInt y)) (Num 50))"
      by (elim exE conjE)
    from xy m have "x = ''3''" "y = ''10''" by simp_all
    moreover have "parseInt ''3'' = Num (of_nat 3)"
      by (rule parseInt_value) (simp_all add: is_digit_def dec_value_def digit_val_def)
    moreover have "parseInt ''10'' = Num (of_nat 10)"
      by (rule parseInt_value) (simp_all add: is_digit_def dec_value_def digit_val_def)
    ultimately show ?thesis using v part_3_of_10 by simp
  qed
  have r7: "parseProgress ''Transcribing completed'' = Num 100"
  proof -
    have "\<not> js_includes ''Transcribing completed'' ''%'' \<and>
          \<not> js_includes ''Transcribing completed'' ''Starting'' \<and>
          \<not> js_includes ''Transcribing completed'' ''download'' \<and>
          \<not> js_includes ''Transcribing completed'' ''Processing'' \<and>
          (\<not> js_includes ''Transcribing completed'' ''Transcribing'' \<or>
           match_part ''Transcribing completed'' = None) \<and>
          js_includes ''Transcribing completed'' ''completed''"
      by code_simp
    then show ?thesis
      by (rule rules [THEN conjunct2, THEN conjunct2, THEN conjunct2, THEN conjunct2,
            THEN conjunct2, THEN conjunct2, THEN conjunct1, THEN mp])
  qed
  have r8: "parseProgress ''Idle'' = Num 0"
  proof -
    have "\<not> js_includes ''Idle'' ''%'' \<and> \<not> js_includes ''Idle'' ''Starting'' \<and>
          \<not> js_includes ''Idle'' ''download'' \<and> \<not> js_includes ''Idle'' ''Processing'' \<and>
          (\<not> js_includes ''Idle'' ''Transcribing'' \<or> match_part ''Idle'' = None) \<and>
          \<not> js_includes ''Idle'' ''completed''"
      by code_simp
    then show ?thesis
      by (rule rules [THEN conjunct2, THEN conjunct2, THEN conjunct2, THEN conjunct2,
            THEN conjunct2, THEN conjunct2, THEN conjunct2, THEN mp])
  qed
  show ?thesis
    by (intro conjI) (fact r1 r2 r3 r4 r5 r6 r7 r8)+
qed

text \<open>
  C9. The stage keywords are looked for as they are written, case included: the text
  \<^verbatim>\<open>Downloading video\<close> does not contain \<^verbatim>\<open>download\<close>, no rule fires and \<open>parseProgress\<close>
  returns 0 and not 20.
\<close>

theorem parseProgress_case_sensitive:
  "\<not> js_includes ''Downloading video'' ''download'' \<and>
   parseProgress ''Downloading video'' = Num 0 \<and>
   parseProgress ''downloading video'' = Num 20"
  by code_simp

text \<open>
  C10. The division of the rule of \<^verbatim>\<open>part X of Y\<close> has no guard: on
  \<^verbatim>\<open>Transcribing part 1 of 0\<close> the divisor is zero and the result is \<^verbatim>\<open>Infinity\<close>, which is no
  value in the interval from 0 to 100.
\<close>

theorem parseProgress_zero_total:
  "parseProgress ''Transcribing part 1 of 0'' = Infinity \<and>
   parseProgress ''Transcribing part 0 of 0'' = NaN \<and>
   \<not> is_percentage (parseProgress ''Transcribing part 1 of 0'') \<and>
   \<not> at_most (parseProgress ''Transcribing part 1 of 0'') 100"
proof -
  have f1: "part_rule_fires ''Transcribing part 1 of 0''" by code_simp
  have p1: "match_part ''Transcribing part 1 of 0'' = Some (''1'', ''0'')" by code_simp
  have f0: "part_rule_fires ''Transcribing part 0 of 0''" by code_simp
  have p0: "match_part ''Transcribing part 0 of 0'' = Some (''0'', ''0'')" by code_simp
  have x: "parseInt ''1'' = Num (of_nat 1)"
    by (rule parseInt_value) (simp_all add: is_digit_def dec_value_def digit_val_def)
  have y: "parseInt ''0'' = Num (of_nat 0)"
    by (rule parseInt_value) (simp_all add: is_digit_def dec_value_def digit_val_def)
  have a: "parseProgress ''Transcribing part 1 of 0'' = Infinity"
    using parseProgress_part_rule [OF f1 p1] x y by simp
  have b: "parseProgress ''Transcribing part 0 of 0'' = NaN"
    using parseProgress_part_rule [OF f0 p0] y by simp
  from a b show ?thesis by simp
qed

section \<open>Properties of the page\<close>

text \<open>
  C5. A click with a URL field that is empty once trimmed, or that holds neither
  \<^verbatim>\<open>youtube.com/\<close> nor \<^verbatim>\<open>youtu.be/\<close>: no request is sent, the validation message is on
  display, and the page is left not busy with its controls enabled.
\<close>

theorem on_click_invalid:
  assumes "url = trim input_value"
    and "url = [] \<or> (url \<noteq> [] \<and> \<not> js_includes url ''youtube.com/'' \<and> \<not> js_includes url ''youtu.be/'')"
  shows "requests (on_click input_value checked_model st) = requests st \<and>
         error_shown (if url = [] then ''Please enter a YouTube URL''
                      else ''Please enter a valid YouTube URL'')
           (on_click input_value checked_model st)"
  using assms by (auto simp: on_click_def Let_def showError_simps error_shown_showError)

theorem on_click_invalid_witness:
  "requests (on_click ''   '' None polling_page) = requests polling_page \<and>
   error_shown ''Please enter a YouTube URL'' (on_click ''   '' None polling_page) \<and>
   requests (on_click '' https://vimeo.com/12345 '' None polling_page) = requests polling_page \<and>
   error_shown ''Please enter a valid YouTube URL''
     (on_click '' https://vimeo.com/12345 '' None polling_page)"
proof -
  have a: "[] = trim ''   ''" by code_simp
  have b: "''https://vimeo.com/12345'' = trim '' https://vimeo.com/12345 ''" by code_simp
  have c: "''https://vimeo.com/12345'' = [] \<or>
      (''https://vimeo.com/12345'' \<noteq> [] \<and> \<not> js_includes ''https://vimeo.com/12345'' ''youtube.com/'' \<and>
       \<not> js_includes ''https://vimeo.com/12345'' ''youtu.be/'')"
    by code_simp
  show ?thesis
    using on_click_invalid [OF a, of None polling_page] on_click_invalid [OF b c, of None polling_page]
    by simp
qed

text \<open>
  C6 does not hold as stated: the answer is first tested for success. An answer that is
  not \<^verbatim>\<open>ok\<close> takes the error path whatever its body says, so with \<^verbatim>\<open>finished: true\<close> in it
  the progress is not set to 100 and no cleanup request is sent.
\<close>

theorem checkProgress_finished_not_ok:
  "finished \<lparr>progress = None, transcription = None, finished = Some True, error = None\<rparr> = Some True \<and>
   progressBar_value (fst (checkProgress_settled
       (Fulfilled False \<lparr>progress = None, transcription = None, finished = Some True, error = None\<rparr>)
       polling_page)) \<noteq> Num 100 \<and>
   PostCleanup \<notin> set (requests (fst (checkProgress_settled
       (Fulfilled False \<lparr>progress = None, transcription = None, finished = Some True, error = None\<rparr>)
       polling_page)))"
  by (simp add: checkProgress_settled_def Let_def showError_simps polling_page_eq)

text \<open>
  C6, amended. A polling tick whose answer is successful (\<^verbatim>\<open>response.ok\<close>) and has
  \<^verbatim>\<open>finished\<close> set to true, or a progress text that contains \<^verbatim>\<open>completed\<close>: the handler sets
  the displayed progress to 100 and resets the state, after which no timer is active and
  no further tick runs, and it sends exactly one cleanup request: one when the answer is
  handled, and none when the handler resumes after that request.
\<close>

theorem checkProgress_completion:
  assumes "reachable st" and "completion_signal data"
    and "checkProgress_settled (Fulfilled True data) st = (st', pending)"
  shows "progressBar_value st' = Num 100 \<and>
         \<not> isTranscribing st' \<and> progressInterval st' = None \<and>
         \<not> transcribeButton_disabled st' \<and> \<not> urlInput_disabled st' \<and>
         timers st' = {} \<and> step Tick st' = st' \<and>
         requests st' = requests st @ [PostCleanup] \<and>
         pending = Some data \<and>
         (\<forall>c st2. requests (checkProgress_cleaned c data st2) = requests st2)"
proof -
  have inv: "timers st = set_option (progressInterval st)"
    using reachable_timers_inv [OF assms(1)] by (simp add: timers_inv_def)
  have st': "st' = fetch PostCleanup
        (resetState
           (updateUI False (Num 100) ''Transcription completed!'' (transcription data)
              (if truthy_str (progress data)
                 then updateUI True (parseProgress (or_else (progress data) []))
                        (or_else (progress data) []) (transcription data) st
                 else st)))"
    and p: "pending = Some data"
    using assms(3) checkProgress_settled_completion [OF assms(2), of st] by simp_all
  have t: "timers st' = {}"
    using inv by (simp add: st' fetch_simps resetState_simps updateUI_simps)
  have "progressBar_value st' = Num 100"
    by (simp add: st' fetch_simps resetState_simps updateUI_simps)
  moreover have "\<not> isTranscribing st' \<and> progressInterval st' = None \<and>
         \<not> transcribeButton_disabled st' \<and> \<not> urlInput_disabled st'"
    by (simp add: st' fetch_simps resetState_simps)
  moreover have "step Tick st' = st'" using t by simp
  moreover have "requests st' = requests st @ [PostCleanup]"
    by (simp add: st' fetch_simps resetState_simps updateUI_simps)
  ultimately show ?thesis using t p requests_checkProgress_cleaned by blast
qed

theorem checkProgress_completion_witness:
  "progressBar_value (fst (checkProgress_settled
       (Fulfilled True \<lparr>progress = Some ''Transcription completed'', transcription = Some ''hello'',
          finished = Some True, error = None\<rparr>) polling_page)) = Num 100 \<and>
   timers (fst (checkProgress_settled
       (Fulfilled True \<lparr>progress = Some ''Transcription completed'', transcription = Some ''hello'',
          finished = Some True, error = None\<rparr>) polling_page)) = {} \<and>
   requests (fst (checkProgress_settled
       (Fulfilled True \<lparr>progress = Some ''Transcription completed'', transcription = Some ''hello'',
          finished = Some True, error = None\<rparr>) polling_page)) =
     requests polling_page @ [PostCleanup] \<and>
   timers polling_page = {0}"
proof -
  have c: "completion_signal \<lparr>progress = Some ''Transcription completed'',
      transcription = Some ''hello'', finished = Some True, error = None\<rparr>"
    by (simp add: completion_signal_def)
  have t: "timers polling_page = {0}" by (simp add: polling_page_eq)
  show ?thesis
    using checkProgress_completion [OF reachable_polling_page c prod.collapse [symmetric]] t
    by simp
qed




text \<open>
  C8. In every state a run reaches, at most one timer is active, and it is the one whose
  handle the script holds. Starting to poll leaves the new timer as the only active one:
  a timer that was active before is cancelled. Resetting a state that holds no handle
  changes neither the timers nor the handle, and resetting twice is resetting once.
\<close>

theorem one_polling_timer:
  assumes "reachable st" and "progressInterval st' = None"
  shows "finite (timers st) \<and> card (timers st) \<le> 1 \<and>
         timers st = set_option (progressInterval st) \<and>
         timers (startProgressChecking st) = {timers_created st} \<and>
         progressInterval (startProgressChecking st) = Some (timers_created st) \<and>
         timers st \<inter> timers (startProgressChecking st) = {} \<and>
         timers (resetState st') = timers st' \<and>
         progressInterval (resetState st') = None \<and>
         resetState (resetState st) = resetState st"
proof -
  from reachable_timers_inv [OF assms(1)]
  have eq: "timers st = set_option (progressInterval st)"
    and fresh: "\<forall>h\<in>timers st. h < timers_created st"
    by (simp_all add: timers_inv_def)
  have fin: "finite (timers st) \<and> card (timers st) \<le> 1"
    by (cases "progressInterval st") (simp_all add: eq)
  have new: "timers (startProgressChecking st) = {timers_created st}"
    by (simp add: startProgressChecking_simps eq)
  have old: "timers st \<inter> timers (startProgressChecking st) = {}"
    using fresh by (auto simp: new)
  have idle: "timers (resetState st') = timers st'"
    using assms(2) by (simp add: resetState_simps)
  have idem: "resetState (resetState st) = resetState st"
    by (simp add: resetState_def clearInterval_def Let_def split: option.splits)
  from fin eq new old idle idem show ?thesis
    by (simp add: startProgressChecking_simps resetState_simps)
qed

theorem one_polling_timer_witness:
  "card (timers polling_page) \<le> 1 \<and>
   timers polling_page = {0} \<and>
   timers (startProgressChecking polling_page) = {1} \<and>
   timers (resetState page0) = timers page0 \<and>
   progressInterval (resetState page0) = None"
proof -
  have n: "progressInterval page0 = None" by (simp add: page0_def)
  have p: "progressInterval polling_page = Some 0" "timers_created polling_page = 1"
    by (simp_all add: polling_page_eq)
  show ?thesis
    using one_polling_timer [OF reachable_polling_page n] p by simp
qed

end
